theory Spec2Isabelle
  imports Main
begin

section \<open>Upward directory search with process-wide caches (src/sync.js)\<close>

text \<open>
  The module's default export walks from a start path towards the filesystem root and asks a
  caller-supplied callback at every directory. It keeps three module-level JavaScript
  \<open>Map\<close>s (\<open>pathCache\<close>, \<open>statCache\<close>, \<open>readdirCache\<close>) and one module-level key queue
  (\<open>cacheKeys\<close>). The embedding threads that module state through every function, models
  exceptions as the left summand of a sum type, and keeps the arrays returned by
  \<open>readdirSync\<close> in an explicit store, because the callback receives a reference to them.
\<close>

subsection \<open>Values, errors, collaborators\<close>

datatype error = ENOENT | EACCES | ENOTDIR | ERR_INVALID_ARG_TYPE | Thrown string

text \<open>
  What a callback may hand back: \<open>undefined\<close>, a boolean or a string. The loop only tests
  the value for truthiness and passes a truthy one to \<open>resolve\<close>, which accepts strings only:
  any other falsy value behaves as \<open>undefined\<close>, any other truthy value as \<open>true\<close>.
\<close>

datatype jsval = Undefined | Bool bool | Str string

fun truthy :: "jsval \<Rightarrow> bool" where
  "truthy Undefined = False"
| "truthy (Bool b) = b"
| "truthy (Str s) = (s \<noteq> [])"

type_synonym addr = nat

text \<open>
  The filesystem primitives imported from \<open>fs\<close>. \<open>statSync\<close> yields the \<open>Stats\<close> object, of
  which the module only reads \<open>isDirectory()\<close>; both primitives may throw.
\<close>

record filesystem =
  statSync :: "string \<Rightarrow> error + bool"
  readdirSync :: "string \<Rightarrow> error + string list"

text \<open>
  A callback is observed through its source text (\<open>callback.toString()\<close>) and through what a
  call does: it returns a value or throws, and it may rewrite in place the array it was
  handed (the second component is the array's content after the call).
\<close>

record callback =
  cb_toString :: string
  cb_apply :: "string \<Rightarrow> string list \<Rightarrow> (error + jsval) \<times> string list"

text \<open>Observable events, recorded in program order (a ghost log; the code does not read it).\<close>

datatype event =
    StatSync string
  | ReaddirSync string
  | Iteration string
  | Invoke string addr "string list" "error + jsval"

subsection \<open>The \<open>path\<close> functions used by the module (POSIX flavour)\<close>

text \<open>\<open>s.split('/')\<close>\<close>

fun split_slash :: "string \<Rightarrow> string list" where
  "split_slash [] = [[]]"
| "split_slash (c # cs) =
     (if c = CHR ''/'' then [] # split_slash cs
      else (case split_slash cs of [] \<Rightarrow> [[c]] | x # xs \<Rightarrow> (c # x) # xs))"

text \<open>\<open>segments.join('/')\<close>\<close>

fun join_slash :: "string list \<Rightarrow> string" where
  "join_slash [] = []"
| "join_slash [x] = x"
| "join_slash (x # y # ys) = x @ CHR ''/'' # join_slash (y # ys)"

text \<open>
  \<open>normalizeString\<close> of \<open>path.posix\<close> for an absolute path, on segments: empty and \<open>.\<close>
  segments vanish, \<open>..\<close> removes the segment before it and is dropped at the root.
\<close>

fun normalizeString :: "string list \<Rightarrow> string list \<Rightarrow> string list" where
  "normalizeString res [] = res"
| "normalizeString res (x # xs) =
     (if x = [] \<or> x = ''.'' then normalizeString res xs
      else if x = ''..'' then normalizeString (butlast res) xs
      else normalizeString (res @ [x]) xs)"

definition isAbsolute :: "string \<Rightarrow> bool" where
  "isAbsolute p = (case p of [] \<Rightarrow> False | c # _ \<Rightarrow> c = CHR ''/'')"

text \<open>
  \<open>path.posix.resolve(a, b)\<close>: arguments are prepended from the right until an absolute one
  is met, the working directory comes last. \<open>process.cwd()\<close> is an absolute path, so the
  result is always the absolute branch of \<open>resolve\<close>: a slash followed by the normalized
  segments.
\<close>

definition resolve :: "string \<Rightarrow> string \<Rightarrow> string \<Rightarrow> string" where
  "resolve cwd a b =
     (let resolvedPath =
            (if isAbsolute b then b @ ''/''
             else if isAbsolute a then a @ ''/'' @ b @ ''/''
             else cwd @ ''/'' @ a @ ''/'' @ b @ ''/'')
      in CHR ''/'' # join_slash (normalizeString [] (split_slash resolvedPath)))"

text \<open>
  \<open>path.posix.dirname\<close>: scanning from the right down to index 1, trailing slashes are
  skipped, then the last segment; the slash found next is where the result ends.
\<close>

definition dirname :: "string \<Rightarrow> string" where
  "dirname p =
     (if p = [] then ''.''
      else
        let hasRoot = (hd p = CHR ''/'');
            rest = dropWhile (\<lambda>c. c \<noteq> CHR ''/'')
                     (dropWhile (\<lambda>c. c = CHR ''/'') (rev (tl p)));
            end = length rest
        in if rest = [] then (if hasRoot then ''/'' else ''.'')
           else if hasRoot \<and> end = 1 then ''//''
           else take end p)"

subsection \<open>JavaScript \<open>Map\<close> as an insertion-ordered association list\<close>

fun map_set :: "('k \<times> 'v) list \<Rightarrow> 'k \<Rightarrow> 'v \<Rightarrow> ('k \<times> 'v) list" where
  "map_set [] k v = [(k, v)]"
| "map_set ((k', v') # m) k v =
     (if k' = k then (k, v) # m else (k', v') # map_set m k v)"

definition map_delete :: "('k \<times> 'v) list \<Rightarrow> 'k \<Rightarrow> ('k \<times> 'v) list" where
  "map_delete m k = filter (\<lambda>kv. fst kv \<noteq> k) m"

definition map_has :: "('k \<times> 'v) list \<Rightarrow> 'k \<Rightarrow> bool" where
  "map_has m k = (k \<in> fst ` set m)"

definition map_get :: "('k \<times> 'v) list \<Rightarrow> 'k \<Rightarrow> 'v option" where
  "map_get m k = map_of m k"

definition map_size :: "('k \<times> 'v) list \<Rightarrow> nat" where
  "map_size m = length m"

subsection \<open>Module state\<close>

record state =
  pathCache :: "(string \<times> string option) list"
  cacheKeys :: "string list"
  statCache :: "(string \<times> bool) list"
  readdirCache :: "(string \<times> addr) list"
  heap :: "addr \<Rightarrow> string list"
  next_addr :: addr
  trace :: "event list"

definition MAX_CACHE_SIZE :: nat where
  "MAX_CACHE_SIZE = 100"

definition SKIP_DIRS :: "string set" where
  "SKIP_DIRS = {''.git'', ''node_modules''}"

text \<open>The state of a freshly loaded module.\<close>

definition init_state :: state where
  "init_state = \<lparr>pathCache = [], cacheKeys = [], statCache = [], readdirCache = [],
                 heap = (\<lambda>_. []), next_addr = 0, trace = []\<rparr>"

subsection \<open>Cache helpers\<close>

text \<open>
  \<open>addToCache(cache, key, value)\<close>. The queue \<open>cacheKeys\<close> is the module-level one, whatever
  map is passed; \<open>shift()\<close> on an empty queue gives \<open>undefined\<close>, which no map holds.
\<close>

definition addToCache ::
  "(string \<times> 'v) list \<Rightarrow> string \<Rightarrow> 'v \<Rightarrow> string list \<Rightarrow> (string \<times> 'v) list \<times> string list" where
  "addToCache cache key val keys =
     (let (cache1, keys1) =
            (if map_size cache \<ge> MAX_CACHE_SIZE then
               (case keys of
                  [] \<Rightarrow> (cache, [])
                | oldestKey # ks \<Rightarrow> (map_delete cache oldestKey, ks))
             else (cache, keys))
      in (map_set cache1 key val, keys1 @ [key]))"

definition getCachedStat :: "state \<Rightarrow> string \<Rightarrow> bool option" where
  "getCachedStat s path = (if map_has (statCache s) path then map_get (statCache s) path else None)"

definition setCachedStat :: "state \<Rightarrow> string \<Rightarrow> bool \<Rightarrow> state" where
  "setCachedStat s path stats =
     (let (c, ks) = addToCache (statCache s) path stats (cacheKeys s)
      in s\<lparr>statCache := c, cacheKeys := ks\<rparr>)"

definition getCachedReaddir :: "state \<Rightarrow> string \<Rightarrow> addr option" where
  "getCachedReaddir s path =
     (if map_has (readdirCache s) path then map_get (readdirCache s) path else None)"

definition setCachedReaddir :: "state \<Rightarrow> string \<Rightarrow> addr \<Rightarrow> state" where
  "setCachedReaddir s path files =
     (let (c, ks) = addToCache (readdirCache s) path files (cacheKeys s)
      in s\<lparr>readdirCache := c, cacheKeys := ks\<rparr>)"

subsection \<open>The default export\<close>

text \<open>Appending an event to the ghost log.\<close>

definition log_event :: "event \<Rightarrow> state \<Rightarrow> state" where
  "log_event e s = s\<lparr>trace := trace s @ [e]\<rparr>"

text \<open>Lines 57 to 61: the cached \<open>Stats\<close> of \<open>dir\<close>, or a fresh one that is then cached.\<close>

definition fetch_stat :: "filesystem \<Rightarrow> string \<Rightarrow> state \<Rightarrow> (error + bool) \<times> state" where
  "fetch_stat fs dir s =
     (case getCachedStat s dir of
        Some stats \<Rightarrow> (Inr stats, s)
      | None \<Rightarrow>
          (let s1 = log_event (StatSync dir) s in
           case statSync fs dir of
             Inl e \<Rightarrow> (Inl e, s1)
           | Inr stats \<Rightarrow> (Inr stats, setCachedStat s1 dir stats)))"

text \<open>
  Lines 76 to 80: the cached listing of \<open>dir\<close>, or a fresh array from \<open>readdirSync\<close> that is
  then cached. The result is the reference to the array.
\<close>

definition fetch_files :: "filesystem \<Rightarrow> string \<Rightarrow> state \<Rightarrow> (error + addr) \<times> state" where
  "fetch_files fs dir s =
     (case getCachedReaddir s dir of
        Some files \<Rightarrow> (Inr files, s)
      | None \<Rightarrow>
          (let s1 = log_event (ReaddirSync dir) s in
           case readdirSync fs dir of
             Inl e \<Rightarrow> (Inl e, s1)
           | Inr names \<Rightarrow>
               (let files = next_addr s1;
                    s2 = s1\<lparr>heap := (heap s1)(files := names), next_addr := Suc files\<rparr>
                in (Inr files, setCachedReaddir s2 dir files))))"

text \<open>
  The measure under which \<open>dirname\<close> makes progress, and the facts about \<open>dirname\<close> that
  the termination of the loop rests on.
\<close>

definition pmeasure :: "string \<Rightarrow> nat" where
  "pmeasure p = (if p = ''/'' \<or> p = ''.'' then 0 else Suc (length p))"

lemma dirname_unfold:
  assumes "p \<noteq> []"
  defines "t \<equiv> dropWhile (\<lambda>c. c \<noteq> CHR ''/'') (dropWhile (\<lambda>c. c = CHR ''/'') (rev (tl p)))"
  shows "dirname p = (if t = [] then (if hd p = CHR ''/'' then ''/'' else ''.'')
                      else if hd p = CHR ''/'' \<and> length t = 1 then ''//''
                      else take (length t) p)"
  using assms(1) unfolding dirname_def Let_def t_def by simp

lemma dirname_rest_shorter:
  assumes "dropWhile (\<lambda>c. c \<noteq> CHR ''/'') (dropWhile (\<lambda>c. c = CHR ''/'') r) \<noteq> []"
  shows "length (dropWhile (\<lambda>c. c \<noteq> CHR ''/'') (dropWhile (\<lambda>c. c = CHR ''/'') r)) < length r"
proof -
  obtain x xs where x: "dropWhile (\<lambda>c. c = CHR ''/'') r = x # xs"
    using assms by (cases "dropWhile (\<lambda>c. c = CHR ''/'') r") auto
  have "x \<noteq> CHR ''/''"
    using hd_dropWhile [of "\<lambda>c. c = CHR ''/''" r] x by simp
  then have "dropWhile (\<lambda>c. c \<noteq> CHR ''/'') (x # xs) = dropWhile (\<lambda>c. c \<noteq> CHR ''/'') xs"
    by simp
  moreover have "length (dropWhile (\<lambda>c. c \<noteq> CHR ''/'') xs) \<le> length xs"
    by (rule length_dropWhile_le)
  moreover have "length (x # xs) \<le> length r"
    unfolding x [symmetric] by (rule length_dropWhile_le)
  ultimately show ?thesis unfolding x by simp
qed

lemma dirname_decreases: "dirname p \<noteq> p \<Longrightarrow> pmeasure (dirname p) < pmeasure p"
proof (cases "p = []")
  case True
  then show ?thesis by (simp add: dirname_def pmeasure_def)
next
  case False
  assume ne: "dirname p \<noteq> p"
  define t where
    "t = dropWhile (\<lambda>c. c \<noteq> CHR ''/'') (dropWhile (\<lambda>c. c = CHR ''/'') (rev (tl p)))"
  note d = dirname_unfold [OF False, folded t_def]
  show ?thesis
  proof (cases "t = []")
    case True
    then have "dirname p = (if hd p = CHR ''/'' then ''/'' else ''.'')"
      by (simp add: d)
    then show ?thesis using ne
      by (cases "p = ''/'' \<or> p = ''.''") (auto simp: pmeasure_def split: if_splits)
  next
    case tne: False
    then have "length t < length (rev (tl p))"
      unfolding t_def by (rule dirname_rest_shorter)
    then have p2: "length t + 2 \<le> length p" by simp
    then have notspecial: "p \<noteq> ''/''" "p \<noteq> ''.''" by auto
    show ?thesis
    proof (cases "hd p = CHR ''/'' \<and> length t = 1")
      case True
      then have "dirname p = ''//''" using tne by (simp add: d)
      then show ?thesis using notspecial p2 True by (simp add: pmeasure_def)
    next
      case False
      then have "dirname p = take (length t) p" using tne by (auto simp: d)
      then have "length (dirname p) < length p" using p2 by simp
      then show ?thesis using notspecial by (simp add: pmeasure_def)
    qed
  qed
qed

text \<open>
  Line 88, \<open>tmp = callback(dir, files)\<close>: the callback sees the array behind the reference
  \<open>files\<close> and leaves it with the content it chose.
\<close>

definition invoke :: "callback \<Rightarrow> string \<Rightarrow> addr \<Rightarrow> state \<Rightarrow> (error + jsval) \<times> state" where
  "invoke callback dir files s =
     (let (tmp, files') = cb_apply callback dir (heap s files)
      in (tmp, log_event (Invoke dir files (heap s files) tmp)
                 (s\<lparr>heap := (heap s)(files := files')\<rparr>)))"

text \<open>
  Lines 70 to 99, the \<open>while (true)\<close> loop. \<open>Inr None\<close> is a \<open>break\<close>, \<open>Inr (Some result)\<close>
  the \<open>return result\<close> of line 93 (after line 92 stored it), \<open>Inl e\<close> an exception.
  The \<open>visited.add(dir)\<close> of line 73 is the \<open>insert\<close> passed to the next iteration, the only
  place where the set is read again. A truthy value that is not a string makes \<open>resolve\<close>
  throw.
\<close>

function walk ::
  "filesystem \<Rightarrow> string \<Rightarrow> callback \<Rightarrow> string \<Rightarrow> string set \<Rightarrow> string \<Rightarrow> state
     \<Rightarrow> (error + string option) \<times> state" where
  "walk fs cwd callback cacheKey visited dir s0 =
     (let s = log_event (Iteration dir) s0 in
      if dir \<in> visited then (Inr None, s)
      else
        case fetch_files fs dir s of
          (Inl e, s1) \<Rightarrow> (Inl e, s1)
        | (Inr files, s1) \<Rightarrow>
            (let dirName = last (split_slash (dirname dir)) in
             if dirName \<in> SKIP_DIRS then (Inr None, s1)
             else
               case invoke callback dir files s1 of
                 (Inl e, s2) \<Rightarrow> (Inl e, s2)
               | (Inr tmp, s2) \<Rightarrow>
                   if truthy tmp then
                     (case tmp of
                        Str p \<Rightarrow>
                          (let result = resolve cwd dir p
                           in (Inr (Some result),
                               s2\<lparr>pathCache := map_set (pathCache s2) cacheKey (Some result)\<rparr>))
                      | _ \<Rightarrow> (Inl ERR_INVALID_ARG_TYPE, s2))
                   else
                     (let nextDir = dirname dir in
                      if nextDir = dir then (Inr None, s2)
                      else walk fs cwd callback cacheKey (insert dir visited) nextDir s2)))"
  by pat_completeness auto
termination
  by (relation "measure (\<lambda>(fs, cwd, callback, cacheKey, visited, dir, s). pmeasure dir)")
     (auto simp: dirname_decreases)

declare walk.simps [simp del]

text \<open>
  The default export of \<open>src/sync.js\<close> (the specification's \<open>locateBlocking\<close>); \<open>cwd\<close> is
  \<open>process.cwd()\<close>. The result is the resolved path, \<open>None\<close> for \<open>undefined\<close>.
\<close>

definition locateBlocking ::
  "filesystem \<Rightarrow> string \<Rightarrow> string \<Rightarrow> callback \<Rightarrow> state \<Rightarrow> (error + string option) \<times> state" where
  "locateBlocking fs cwd start callback s =
     (let dir = resolve cwd ''.'' start;
          cacheKey = dir @ '':'' @ cb_toString callback
      in if map_has (pathCache s) cacheKey then
           (case map_get (pathCache s) cacheKey of
              Some r \<Rightarrow> (Inr r, s)
            | None \<Rightarrow> (Inr None, s))
         else
           case fetch_stat fs dir s of
             (Inl e, s1) \<Rightarrow> (Inl e, s1)
           | (Inr stats, s1) \<Rightarrow>
               (let dir1 = (if \<not> stats then dirname dir else dir) in
                case walk fs cwd callback cacheKey {} dir1 s1 of
                  (Inl e, s2) \<Rightarrow> (Inl e, s2)
                | (Inr (Some result), s2) \<Rightarrow> (Inr (Some result), s2)
                | (Inr None, s2) \<Rightarrow>
                    (Inr None, s2\<lparr>pathCache := map_set (pathCache s2) cacheKey None\<rparr>)))"

section \<open>Notions used to state the properties\<close>

text \<open>A name that can stand as one segment of a normalized path.\<close>

definition plain_name :: "string \<Rightarrow> bool" where
  "plain_name x = (x \<noteq> [] \<and> x \<noteq> ''.'' \<and> x \<noteq> ''..'' \<and> CHR ''/'' \<notin> set x)"

text \<open>The absolute path with the given segments.\<close>

definition render :: "string list \<Rightarrow> string" where
  "render segs = CHR ''/'' # join_slash segs"

text \<open>The number of segments of a path: its depth below the root.\<close>

definition depth :: "string \<Rightarrow> nat" where
  "depth p = length (filter (\<lambda>x. x \<noteq> []) (split_slash p))"

text \<open>
  An absolute path in normal form: the root, or a slash followed by plain names separated
  by single slashes.
\<close>

definition normal_path :: "string \<Rightarrow> bool" where
  "normal_path p = (p = ''/'' \<or> (isAbsolute p \<and> list_all plain_name (split_slash (tl p))))"

text \<open>Line 51: the key of the result cache.\<close>

definition cacheKey_of :: "string \<Rightarrow> string \<Rightarrow> callback \<Rightarrow> string" where
  "cacheKey_of cwd start callback = resolve cwd ''.'' start @ '':'' @ cb_toString callback"

text \<open>The events logged between an earlier state and a later one.\<close>

definition new_events :: "state \<Rightarrow> state \<Rightarrow> event list" where
  "new_events s s' = drop (length (trace s)) (trace s')"

text \<open>The event that marks an entry into the loop body.\<close>

fun is_iteration :: "event \<Rightarrow> bool" where
  "is_iteration (Iteration dir) = True"
| "is_iteration _ = False"

text \<open>How many times the loop body was entered.\<close>

definition iterations :: "event list \<Rightarrow> nat" where
  "iterations ev = length (filter is_iteration ev)"

text \<open>A sequence of calls, each with the filesystem and working directory of its time.\<close>

fun run_calls :: "(filesystem \<times> string \<times> string \<times> callback) list \<Rightarrow> state \<Rightarrow> state" where
  "run_calls [] s = s"
| "run_calls ((fs, cwd, start, callback) # cs) s =
     run_calls cs (snd (locateBlocking fs cwd start callback s))"

text \<open>
  In every state the module can reach, the listing cache has one entry per key, different
  keys refer to different arrays, and every array referred to has been allocated.
\<close>

definition cache_ok :: "state \<Rightarrow> bool" where
  "cache_ok s = (distinct (map fst (readdirCache s)) \<and> distinct (map snd (readdirCache s))
                 \<and> list_all (\<lambda>a. a < next_addr s) (map snd (readdirCache s)))"

text \<open>
  No callback invocation at \<open>D\<close> among the events wrote to the list it was given: the
  callback left the list with the content it found.
\<close>

definition writes_nothing_at :: "string \<Rightarrow> callback \<Rightarrow> event list \<Rightarrow> bool" where
  "writes_nothing_at D callback ev =
     list_all (\<lambda>e. case e of
                      Invoke dir files names res \<Rightarrow>
                        (if dir = D then snd (cb_apply callback dir names) = names else True)
                    | _ \<Rightarrow> True) ev"

text \<open>The same, for each call of a sequence of calls in turn.\<close>

fun listing_untouched ::
  "string \<Rightarrow> (filesystem \<times> string \<times> string \<times> callback) list \<Rightarrow> state \<Rightarrow> bool" where
  "listing_untouched D [] s = True"
| "listing_untouched D ((fs, cwd, start, callback) # cs) s =
     (writes_nothing_at D callback (new_events s (snd (locateBlocking fs cwd start callback s)))
      \<and> listing_untouched D cs (snd (locateBlocking fs cwd start callback s)))"

section \<open>Concrete filesystems, callbacks and call sequences\<close>

text \<open>
  A small tree: \<open>/\<close>, \<open>/a\<close>, \<open>/a/node_modules\<close> and \<open>/a/node_modules/pkg\<close> are directories,
  nothing else exists.
\<close>

definition fs_project :: filesystem where
  "fs_project =
     \<lparr>statSync = (\<lambda>p. if p \<in> {''/'', ''/a'', ''/a/node_modules'', ''/a/node_modules/pkg''}
                       then Inr True else Inl ENOENT),
      readdirSync = (\<lambda>p. if p = ''/'' then Inr [''a'']
                          else if p = ''/a'' then Inr [''node_modules'']
                          else if p = ''/a/node_modules'' then Inr [''pkg'']
                          else if p = ''/a/node_modules/pkg'' then Inr []
                          else Inl ENOENT)\<rparr>"

text \<open>A filesystem with nothing but an empty root directory.\<close>

definition fs_root :: filesystem where
  "fs_root = \<lparr>statSync = (\<lambda>p. if p = ''/'' then Inr True else Inl ENOENT),
              readdirSync = (\<lambda>p. if p = ''/'' then Inr [] else Inl ENOENT)\<rparr>"

text \<open>A filesystem whose root is an empty directory and where every other path is a file.\<close>

definition fs_flat :: filesystem where
  "fs_flat = \<lparr>statSync = (\<lambda>p. if p = ''/'' then Inr True else Inr False),
              readdirSync = (\<lambda>p. if p = ''/'' then Inr [] else Inl ENOTDIR)\<rparr>"

text \<open>A filesystem on which nothing exists any more.\<close>

definition fs_gone :: filesystem where
  "fs_gone = \<lparr>statSync = (\<lambda>p. Inl ENOENT), readdirSync = (\<lambda>p. Inl ENOENT)\<rparr>"

text \<open>A callback that never finds anything: \<open>() => false\<close>.\<close>

definition cb_never :: callback where
  "cb_never = \<lparr>cb_toString = ''() => false'', cb_apply = (\<lambda>dir names. (Inr (Bool False), names))\<rparr>"

text \<open>The callback \<open>() => v\<close>.\<close>

definition cb_const :: "string \<Rightarrow> callback" where
  "cb_const v = \<lparr>cb_toString = ''() => '' @ v, cb_apply = (\<lambda>dir names. (Inr (Str v), names))\<rparr>"

text \<open>
  A callback whose text mentions a variable \<open>target\<close> of its defining scope: callbacks made
  for different targets have the same text and behave differently.
\<close>

definition cb_includes :: "string \<Rightarrow> callback" where
  "cb_includes target =
     \<lparr>cb_toString = ''(dir, names) => names.includes(target) && target'',
      cb_apply = (\<lambda>dir names. (Inr (if target \<in> set names then Str target else Bool False), names))\<rparr>"

text \<open>A callback that appends a name to the list it is given and answers nothing.\<close>

definition cb_push :: "string \<Rightarrow> callback" where
  "cb_push name =
     \<lparr>cb_toString = ''(dir, names) => { names.push(name) }'',
      cb_apply = (\<lambda>dir names. (Inr Undefined, names @ [name]))\<rparr>"

text \<open>The file \<open>/f\<close>, \<open>/ff\<close>, \<open>/fff\<close> and so on.\<close>

definition file_path :: "nat \<Rightarrow> string" where
  "file_path i = CHR ''/'' # replicate (Suc i) (CHR ''f'')"

text \<open>One call on each of the first \<open>n\<close> files, with the same callback.\<close>

definition file_calls :: "nat \<Rightarrow> (filesystem \<times> string \<times> string \<times> callback) list" where
  "file_calls n = map (\<lambda>i. (fs_flat, ''/'', file_path i, cb_never)) [0..<n]"

text \<open>
  A scenario on the small tree: a call on \<open>/a\<close> whose callback appends \<open>ghost\<close> to the
  lists it is given, then a call on \<open>/a/node_modules/pkg\<close> with another appending callback
  and a call on \<open>/a\<close> with \<open>() => false\<close>.
\<close>

definition ghost_state :: state where
  "ghost_state =
     snd (locateBlocking fs_project ''/'' ''/a'' (cb_push ''ghost'') (run_calls [] init_state))"

definition ghost_between :: "(filesystem \<times> string \<times> string \<times> callback) list" where
  "ghost_between =
     [(fs_project, ''/'', ''/a/node_modules/pkg'', cb_push ''other''),
      (fs_project, ''/'', ''/a'', cb_never)]"

text \<open>Unfolding everything the default export is made of, for evaluation on concrete inputs.\<close>

lemmas escalade_defs =
  locateBlocking_def walk.simps fetch_stat_def fetch_files_def invoke_def log_event_def
  getCachedStat_def setCachedStat_def getCachedReaddir_def setCachedReaddir_def
  addToCache_def map_has_def map_get_def map_size_def map_delete_def
  MAX_CACHE_SIZE_def SKIP_DIRS_def resolve_def isAbsolute_def dirname_def
  init_state_def Let_def

section \<open>Facts about the model\<close>

subsection \<open>Maps, state components, the loop\<close>

lemma map_get_map_set: "map_get (map_set m k v) k' = (if k' = k then Some v else map_get m k')"
  by (induction m) (auto simp: map_get_def)

lemma map_fst_map_set:
  "map fst (map_set m k v) = (if k \<in> set (map fst m) then map fst m else map fst m @ [k])"
  by (induction m) (auto simp: rev_image_eqI)

lemma map_has_keys: "map_has m k = (k \<in> set (map fst m))"
  by (simp add: map_has_def)

lemma map_size_keys: "map_size m = length (map fst m)"
  by (simp add: map_size_def)

lemma map_has_map_set: "map_has (map_set m k v) k' = (k' = k \<or> map_has m k')"
  unfolding map_has_keys map_fst_map_set by auto

lemma map_has_get: "map_has m k = (map_get m k \<noteq> None)"
  by (simp add: map_has_def map_get_def map_of_eq_None_iff)

lemma map_size_map_set:
  "map_size (map_set m k v) = (if map_has m k then map_size m else Suc (map_size m))"
  unfolding map_has_keys map_size_keys map_fst_map_set by simp

lemma map_has_map_delete: "map_has (map_delete m k) k' = (k' \<noteq> k \<and> map_has m k')"
  by (auto simp: map_has_def map_delete_def)

lemma map_get_map_delete: "map_get (map_delete m k) k' = (if k' = k then None else map_get m k')"
  by (induction m) (auto simp: map_get_def map_delete_def)

lemma log_event_simps [simp]:
  "pathCache (log_event e s) = pathCache s"
  "cacheKeys (log_event e s) = cacheKeys s"
  "statCache (log_event e s) = statCache s"
  "readdirCache (log_event e s) = readdirCache s"
  "heap (log_event e s) = heap s"
  "next_addr (log_event e s) = next_addr s"
  "trace (log_event e s) = trace s @ [e]"
  by (simp_all add: log_event_def)

lemma setCachedStat_simps [simp]:
  "pathCache (setCachedStat s p b) = pathCache s"
  "readdirCache (setCachedStat s p b) = readdirCache s"
  "heap (setCachedStat s p b) = heap s"
  "next_addr (setCachedStat s p b) = next_addr s"
  "trace (setCachedStat s p b) = trace s"
  by (simp_all add: setCachedStat_def split: prod.splits)

lemma setCachedReaddir_simps [simp]:
  "pathCache (setCachedReaddir s p a) = pathCache s"
  "statCache (setCachedReaddir s p a) = statCache s"
  "heap (setCachedReaddir s p a) = heap s"
  "next_addr (setCachedReaddir s p a) = next_addr s"
  "trace (setCachedReaddir s p a) = trace s"
  by (simp_all add: setCachedReaddir_def split: prod.splits)

lemma getCached_log_event [simp]:
  "getCachedStat (log_event e s) p = getCachedStat s p"
  "getCachedReaddir (log_event e s) p = getCachedReaddir s p"
  by (simp_all add: getCachedStat_def getCachedReaddir_def)

lemma walk_rule [consumes 1, case_names visited readdir_error skipped cb_error found not_string at_root up]:
  assumes "walk fs cwd callback cacheKey vis dir s0 = (r, s')"
    and "\<And>vis dir s0. dir \<in> vis \<Longrightarrow> Q vis dir s0 (Inr None) (log_event (Iteration dir) s0)"
    and "\<And>vis dir s0 e s1.
           dir \<notin> vis \<Longrightarrow> fetch_files fs dir (log_event (Iteration dir) s0) = (Inl e, s1) \<Longrightarrow>
           Q vis dir s0 (Inl e) s1"
    and "\<And>vis dir s0 files s1.
           dir \<notin> vis \<Longrightarrow> fetch_files fs dir (log_event (Iteration dir) s0) = (Inr files, s1) \<Longrightarrow>
           last (split_slash (dirname dir)) \<in> SKIP_DIRS \<Longrightarrow>
           Q vis dir s0 (Inr None) s1"
    and "\<And>vis dir s0 files s1 e s2.
           dir \<notin> vis \<Longrightarrow> fetch_files fs dir (log_event (Iteration dir) s0) = (Inr files, s1) \<Longrightarrow>
           last (split_slash (dirname dir)) \<notin> SKIP_DIRS \<Longrightarrow>
           invoke callback dir files s1 = (Inl e, s2) \<Longrightarrow>
           Q vis dir s0 (Inl e) s2"
    and "\<And>vis dir s0 files s1 p s2.
           dir \<notin> vis \<Longrightarrow> fetch_files fs dir (log_event (Iteration dir) s0) = (Inr files, s1) \<Longrightarrow>
           last (split_slash (dirname dir)) \<notin> SKIP_DIRS \<Longrightarrow>
           invoke callback dir files s1 = (Inr (Str p), s2) \<Longrightarrow> p \<noteq> [] \<Longrightarrow>
           Q vis dir s0 (Inr (Some (resolve cwd dir p)))
             (s2\<lparr>pathCache := map_set (pathCache s2) cacheKey (Some (resolve cwd dir p))\<rparr>)"
    and "\<And>vis dir s0 files s1 s2.
           dir \<notin> vis \<Longrightarrow> fetch_files fs dir (log_event (Iteration dir) s0) = (Inr files, s1) \<Longrightarrow>
           last (split_slash (dirname dir)) \<notin> SKIP_DIRS \<Longrightarrow>
           invoke callback dir files s1 = (Inr (Bool True), s2) \<Longrightarrow>
           Q vis dir s0 (Inl ERR_INVALID_ARG_TYPE) s2"
    and "\<And>vis dir s0 files s1 tmp s2.
           dir \<notin> vis \<Longrightarrow> fetch_files fs dir (log_event (Iteration dir) s0) = (Inr files, s1) \<Longrightarrow>
           last (split_slash (dirname dir)) \<notin> SKIP_DIRS \<Longrightarrow>
           invoke callback dir files s1 = (Inr tmp, s2) \<Longrightarrow> \<not> truthy tmp \<Longrightarrow>
           dirname dir = dir \<Longrightarrow>
           Q vis dir s0 (Inr None) s2"
    and "\<And>vis dir s0 files s1 tmp s2 r s'.
           dir \<notin> vis \<Longrightarrow> fetch_files fs dir (log_event (Iteration dir) s0) = (Inr files, s1) \<Longrightarrow>
           last (split_slash (dirname dir)) \<notin> SKIP_DIRS \<Longrightarrow>
           invoke callback dir files s1 = (Inr tmp, s2) \<Longrightarrow> \<not> truthy tmp \<Longrightarrow>
           dirname dir \<noteq> dir \<Longrightarrow>
           walk fs cwd callback cacheKey (insert dir vis) (dirname dir) s2 = (r, s') \<Longrightarrow>
           Q (insert dir vis) (dirname dir) s2 r s' \<Longrightarrow>
           Q vis dir s0 r s'"
  shows "Q vis dir s0 r s'"
  using assms(1)
proof (induction "pmeasure dir" arbitrary: vis dir s0 rule: less_induct)
  case less
  note IH = less.hyps and w = less.prems
  note ws = walk.simps [of fs cwd callback cacheKey vis dir s0]
  show ?case
  proof (cases "dir \<in> vis")
    case True
    then show ?thesis using w assms(2) [OF True, of s0] by (simp add: ws)
  next
    case nv: False
    obtain fr s1 where ff: "fetch_files fs dir (log_event (Iteration dir) s0) = (fr, s1)"
      by (cases "fetch_files fs dir (log_event (Iteration dir) s0)")
    show ?thesis
    proof (cases fr)
      case (Inl e)
      then show ?thesis using w nv ff assms(3) [OF nv, of s0 e s1] by (simp add: ws)
    next
      case (Inr files)
      note ff' = ff [unfolded Inr]
      show ?thesis
      proof (cases "last (split_slash (dirname dir)) \<in> SKIP_DIRS")
        case True
        then show ?thesis using w nv ff' assms(4) [OF nv ff' True] by (simp add: ws)
      next
        case ns: False
        obtain cr s2 where inv: "invoke callback dir files s1 = (cr, s2)"
          by (cases "invoke callback dir files s1")
        show ?thesis
        proof (cases cr)
          case (Inl e)
          then show ?thesis
            using w nv ff' ns inv assms(5) [OF nv ff' ns inv [unfolded Inl]]
            by (simp add: ws)
        next
          case (Inr tmp)
          note inv' = inv [unfolded Inr]
          show ?thesis
          proof (cases "truthy tmp")
            case True
            show ?thesis
            proof (cases tmp)
              case Undefined
              then show ?thesis using True by simp
            next
              case (Bool b)
              then have "tmp = Bool True" using True by simp
              then show ?thesis
                using w nv ff' ns inv' assms(7) [OF nv ff' ns, of s2]
                by (simp add: ws)
            next
              case (Str p)
              then have "p \<noteq> []" using True by simp
              then show ?thesis
                using w nv ff' ns inv' Str assms(6) [OF nv ff' ns, of p s2]
                by (simp add: ws Let_def)
            qed
          next
            case nt: False
            show ?thesis
            proof (cases "dirname dir = dir")
              case True
              then show ?thesis
                using w nv ff' ns inv' nt assms(8) [OF nv ff' ns inv' nt True]
                by (simp add: ws)
            next
              case False
              then have lt: "pmeasure (dirname dir) < pmeasure dir" by (rule dirname_decreases)
              have w': "walk fs cwd callback cacheKey (insert dir vis) (dirname dir) s2 = (r, s')"
                using w nv ff' ns inv' nt False by (simp add: ws)
              show ?thesis
                by (rule assms(9) [OF nv ff' ns inv' nt False w' IH [OF lt w']])
            qed
          qed
        qed
      qed
    qed
  qed
qed

subsection \<open>Paths in normal form\<close>

lemma split_slash_not_Nil [simp]: "split_slash s \<noteq> []"
  by (induction s) (auto split: list.splits)

lemma split_slash_no_slash: "x \<in> set (split_slash s) \<Longrightarrow> CHR ''/'' \<notin> set x"
proof (induction s arbitrary: x)
  case Nil
  then show ?case by simp
next
  case (Cons c cs)
  show ?case
  proof (cases "c = CHR ''/''")
    case True
    then show ?thesis using Cons by auto
  next
    case False
    obtain y ys where y: "split_slash cs = y # ys"
      by (cases "split_slash cs") auto
    then have "x = c # y \<or> x \<in> set ys" using Cons.prems False by simp
    then show ?thesis using Cons.IH [of y] Cons.IH [of x] y False by auto
  qed
qed

lemma split_slash_plain: "CHR ''/'' \<notin> set x \<Longrightarrow> split_slash x = [x]"
  by (induction x) auto

lemma split_slash_append:
  "CHR ''/'' \<notin> set x \<Longrightarrow> split_slash (x @ CHR ''/'' # rest) = x # split_slash rest"
  by (induction x) auto

lemma split_slash_join:
  "segs \<noteq> [] \<Longrightarrow> list_all plain_name segs \<Longrightarrow>
   split_slash (join_slash segs @ CHR ''/'' # rest) = segs @ split_slash rest"
proof (induction segs rule: join_slash.induct)
  case 1
  then show ?case by simp
next
  case (2 x)
  then show ?case by (simp add: plain_name_def split_slash_append)
next
  case (3 x y ys)
  then show ?case by (simp add: plain_name_def split_slash_append)
qed

lemma split_slash_join_end:
  "segs \<noteq> [] \<Longrightarrow> list_all plain_name segs \<Longrightarrow> split_slash (join_slash segs) = segs"
proof (induction segs rule: join_slash.induct)
  case 1
  then show ?case by simp
next
  case (2 x)
  then show ?case by (simp add: plain_name_def split_slash_plain)
next
  case (3 x y ys)
  then show ?case by (simp add: plain_name_def split_slash_append)
qed

lemma normalizeString_append:
  "normalizeString res (xs @ ys) = normalizeString (normalizeString res xs) ys"
  by (induction xs arbitrary: res) auto

lemma normalizeString_plain_id:
  "list_all plain_name xs \<Longrightarrow> normalizeString res xs = res @ xs"
  by (induction xs arbitrary: res) (auto simp: plain_name_def)

lemma list_all_butlast: "list_all P xs \<Longrightarrow> list_all P (butlast xs)"
  by (induction xs) auto

lemma normalizeString_plain:
  "list_all plain_name res \<Longrightarrow> (\<And>x. x \<in> set xs \<Longrightarrow> CHR ''/'' \<notin> set x) \<Longrightarrow>
   list_all plain_name (normalizeString res xs)"
proof (induction xs arbitrary: res)
  case Nil
  then show ?case by simp
next
  case (Cons x xs)
  have tl: "\<And>y. y \<in> set xs \<Longrightarrow> CHR ''/'' \<notin> set y" using Cons.prems(2) by simp
  have x: "CHR ''/'' \<notin> set x" using Cons.prems(2) by simp
  show ?case
  proof (cases "x = [] \<or> x = ''.''")
    case True
    then show ?thesis using Cons.IH [OF Cons.prems(1) tl] by auto
  next
    case False
    show ?thesis
    proof (cases "x = ''..''")
      case True
      then show ?thesis
        using Cons.IH [OF list_all_butlast [OF Cons.prems(1)] tl] by simp
    next
      case nd: False
      have "plain_name x" using False nd x by (simp add: plain_name_def)
      then have "list_all plain_name (res @ [x])"
        using Cons.prems(1) by simp
      then show ?thesis using Cons.IH [OF _ tl] False nd by simp
    qed
  qed
qed

text \<open>Every resolved path is a rendering of plain segments.\<close>

lemma resolve_normal: "\<exists>segs. list_all plain_name segs \<and> resolve cwd a b = render segs"
proof -
  define rp where "rp = (if isAbsolute b then b @ ''/''
             else if isAbsolute a then a @ ''/'' @ b @ ''/''
             else cwd @ ''/'' @ a @ ''/'' @ b @ ''/'')"
  have "list_all plain_name (normalizeString [] (split_slash rp))"
    by (rule normalizeString_plain) (simp_all add: split_slash_no_slash)
  moreover have "resolve cwd a b = render (normalizeString [] (split_slash rp))"
    by (simp add: resolve_def render_def rp_def Let_def)
  ultimately show ?thesis by blast
qed

lemma join_slash_snoc:
  "segs \<noteq> [] \<Longrightarrow> join_slash (segs @ [x]) = join_slash segs @ CHR ''/'' # x"
  by (induction segs rule: join_slash.induct) auto

lemma normalizeString_render_slash:
  assumes "list_all plain_name segs"
  shows "normalizeString res (split_slash (render segs @ CHR ''/'' # rest))
         = normalizeString (res @ segs) (split_slash rest)"
proof (cases "segs = []")
  case True
  then show ?thesis by (simp add: render_def)
next
  case False
  then have "split_slash (render segs @ CHR ''/'' # rest) = [] # segs @ split_slash rest"
    using assms by (simp add: render_def split_slash_join)
  then show ?thesis
    using assms by (simp add: normalizeString_append normalizeString_plain_id)
qed

lemma resolve_absolute_normal:
  assumes "list_all plain_name segs"
  shows "resolve cwd a (render segs) = render segs"
proof -
  have "isAbsolute (render segs)" by (simp add: isAbsolute_def render_def)
  then have "resolve cwd a (render segs)
      = render (normalizeString [] (split_slash (render segs @ CHR ''/'' # [])))"
    by (simp add: resolve_def render_def)
  also have "normalizeString [] (split_slash (render segs @ CHR ''/'' # [])) = segs"
    unfolding normalizeString_render_slash [OF assms] by simp
  finally show ?thesis .
qed

lemma resolve_plain_name:
  assumes "list_all plain_name segs" and "plain_name v"
  shows "resolve cwd (render segs) v = render (segs @ [v])"
proof -
  have "\<not> isAbsolute v" using assms(2) by (cases v) (auto simp: isAbsolute_def plain_name_def)
  moreover have "isAbsolute (render segs)" by (simp add: isAbsolute_def render_def)
  ultimately have "resolve cwd (render segs) v
      = render (normalizeString [] (split_slash (render segs @ CHR ''/'' # v @ ''/'')))"
    by (simp add: resolve_def render_def)
  also have "normalizeString [] (split_slash (render segs @ CHR ''/'' # v @ ''/''))
             = normalizeString segs (split_slash (v @ ''/''))"
    unfolding normalizeString_render_slash [OF assms(1)] by simp
  also have "split_slash (v @ ''/'') = [v, []]"
    using assms(2) by (simp add: split_slash_append plain_name_def)
  also have "normalizeString segs [v, []] = segs @ [v]"
    using assms(2) by (simp add: plain_name_def)
  finally show ?thesis .
qed

lemma render_snoc:
  "render (segs @ [v]) = (if segs = [] then CHR ''/'' # v else render segs @ CHR ''/'' # v)"
  by (simp add: render_def join_slash_snoc)

lemma dirname_render:
  assumes "list_all plain_name segs"
  shows "dirname (render segs) = render (butlast segs)"
proof (cases segs rule: rev_cases)
  case Nil
  then show ?thesis by (simp add: render_def dirname_def)
next
  case (snoc ss x)
  then have x: "x \<noteq> []" "CHR ''/'' \<notin> set x" and ss: "list_all plain_name ss"
    using assms by (simp_all add: plain_name_def)
  have lastx: "last x \<noteq> CHR ''/''" using x by (metis last_in_set)
  have dw1: "dropWhile (\<lambda>c. c = CHR ''/'') (rev x @ ys) = rev x @ ys" for ys
    using x lastx by (cases x rule: rev_cases) auto
  have dw2: "dropWhile (\<lambda>c. c \<noteq> CHR ''/'') (rev x @ ys) = dropWhile (\<lambda>c. c \<noteq> CHR ''/'') ys" for ys
    using x by (simp add: dropWhile_append)
  show ?thesis
  proof (cases "ss = []")
    case True
    then have "render segs = CHR ''/'' # x" using snoc by (simp add: render_def)
    then show ?thesis using True snoc dw1 [of "[]"] dw2 [of "[]"] x
      by (simp add: dirname_def render_def)
  next
    case False
    then have r: "render segs = render ss @ CHR ''/'' # x"
      using snoc by (simp add: render_snoc)
    have tl: "tl (render segs) = join_slash ss @ CHR ''/'' # x"
      using r by (simp add: render_def)
    have jne: "join_slash ss \<noteq> []"
      using False ss by (cases ss rule: join_slash.cases) (auto simp: plain_name_def)
    have rest: "dropWhile (\<lambda>c. c \<noteq> CHR ''/'')
                  (dropWhile (\<lambda>c. c = CHR ''/'') (rev (tl (render segs))))
                = CHR ''/'' # rev (join_slash ss)"
      by (simp add: tl dw1 dw2)
    have "render segs \<noteq> []" by (simp add: render_def)
    then have "dirname (render segs) = take (Suc (length (join_slash ss))) (render segs)"
      using jne by (simp add: dirname_unfold rest)
    also have "\<dots> = render ss" by (simp add: r) (simp add: render_def)
    finally show ?thesis using snoc by simp
  qed
qed

lemma length_join_slash_butlast:
  "segs \<noteq> [] \<Longrightarrow> list_all plain_name segs \<Longrightarrow>
   length (join_slash (butlast segs)) < length (join_slash segs)"
proof (induction segs rule: rev_induct)
  case Nil
  then show ?case by simp
next
  case (snoc x xs)
  then show ?case by (cases "xs = []") (auto simp: join_slash_snoc plain_name_def)
qed

lemma render_butlast_eq:
  assumes "list_all plain_name segs"
  shows "(render (butlast segs) = render segs) = (segs = [])"
proof (cases "segs = []")
  case True
  then show ?thesis by simp
next
  case False
  then have "length (render (butlast segs)) < length (render segs)"
    using length_join_slash_butlast [OF False assms] by (simp add: render_def)
  then show ?thesis using False by auto
qed

lemma depth_render: "list_all plain_name segs \<Longrightarrow> depth (render segs) = length segs"
proof (cases "segs = []")
  case True
  then show ?thesis by (simp add: depth_def render_def)
next
  case False
  assume a: "list_all plain_name segs"
  then have "filter (\<lambda>x. x \<noteq> []) segs = segs"
    by (induction segs) (auto simp: plain_name_def)
  then show ?thesis using False a by (simp add: depth_def render_def split_slash_join_end)
qed

subsection \<open>What a call leaves in the result cache\<close>

lemma new_events_append [simp]: "trace s' = trace s @ ev \<Longrightarrow> new_events s s' = ev"
  by (simp add: new_events_def)

lemma fetch_stat_frame:
  assumes "fetch_stat fs dir s = (r, s1)"
  shows "pathCache s1 = pathCache s \<and> readdirCache s1 = readdirCache s \<and> heap s1 = heap s \<and>
         next_addr s1 = next_addr s \<and>
         trace s1 = trace s @ (if getCachedStat s dir = None then [StatSync dir] else [])"
  using assms by (auto simp: fetch_stat_def Let_def split: option.splits sum.splits)

lemma fetch_files_frame:
  assumes "fetch_files fs dir s = (r, s1)"
  shows "pathCache s1 = pathCache s \<and> statCache s1 = statCache s \<and>
         trace s1 = trace s @ (if getCachedReaddir s dir = None then [ReaddirSync dir] else [])"
  using assms by (auto simp: fetch_files_def Let_def split: option.splits sum.splits)

lemma invoke_frame:
  assumes "invoke callback dir files s = (tmp, s2)"
  shows "pathCache s2 = pathCache s \<and> statCache s2 = statCache s \<and>
         readdirCache s2 = readdirCache s \<and> cacheKeys s2 = cacheKeys s \<and>
         next_addr s2 = next_addr s \<and>
         trace s2 = trace s @ [Invoke dir files (heap s files) tmp] \<and>
         heap s2 = (heap s)(files := snd (cb_apply callback dir (heap s files))) \<and>
         tmp = fst (cb_apply callback dir (heap s files))"
  using assms by (auto simp: invoke_def Let_def split: prod.splits)

lemma walk_pathCache:
  assumes "walk fs cwd callback cacheKey vis dir s0 = (r, s')"
  shows "pathCache s' =
           (case r of Inr (Some x) \<Rightarrow> map_set (pathCache s0) cacheKey (Some x) | _ \<Rightarrow> pathCache s0)"
  using assms
proof (induction rule: walk_rule)
  case (up vis dir s0 files s1 tmp s2 r s')
  then show ?case
    using fetch_files_frame [OF up(2)] invoke_frame [OF up(4)]
    by (auto split: sum.splits option.splits)
qed (auto dest!: fetch_files_frame invoke_frame)

lemma locateBlocking_hit:
  assumes "map_get (pathCache s) (cacheKey_of cwd start callback) = Some r"
  shows "locateBlocking fs cwd start callback s = (Inr r, s)"
  using assms by (simp add: locateBlocking_def cacheKey_of_def map_has_get Let_def)

lemma locateBlocking_stores:
  assumes "locateBlocking fs cwd start callback s = (Inr r, s')"
  shows "map_get (pathCache s') (cacheKey_of cwd start callback) = Some r"
proof (cases "map_has (pathCache s) (cacheKey_of cwd start callback)")
  case True
  then show ?thesis using assms
    by (auto simp: locateBlocking_def cacheKey_of_def Let_def map_has_get split: option.splits)
next
  case False
  obtain sr s1 where fs: "fetch_stat fs (resolve cwd ''.'' start) s = (sr, s1)"
    by (cases "fetch_stat fs (resolve cwd ''.'' start) s")
  show ?thesis
  proof (cases sr)
    case (Inl e)
    then show ?thesis using assms False fs
      by (simp add: locateBlocking_def cacheKey_of_def Let_def)
  next
    case (Inr stats)
    define dir1 where "dir1 = (if \<not> stats then dirname (resolve cwd ''.'' start) else resolve cwd ''.'' start)"
    obtain wr s2 where w: "walk fs cwd callback (cacheKey_of cwd start callback) {} dir1 s1 = (wr, s2)"
      by (cases "walk fs cwd callback (cacheKey_of cwd start callback) {} dir1 s1")
    note pc = walk_pathCache [OF w]
    show ?thesis using assms False fs Inr w pc
      by (auto simp: locateBlocking_def cacheKey_of_def Let_def dir1_def map_get_map_set
               split: sum.splits option.splits if_splits)
  qed
qed

lemma locateBlocking_keeps:
  assumes "locateBlocking fs cwd start callback s = (x, s')"
    and "map_get (pathCache s) k = Some v"
  shows "map_get (pathCache s') k = Some v"
proof (cases "map_has (pathCache s) (cacheKey_of cwd start callback)")
  case True
  then show ?thesis using assms
    by (auto simp: locateBlocking_def cacheKey_of_def Let_def map_has_get split: option.splits)
next
  case False
  then have ne: "k \<noteq> cacheKey_of cwd start callback" using assms(2) by (auto simp: map_has_get)
  obtain sr s1 where fs: "fetch_stat fs (resolve cwd ''.'' start) s = (sr, s1)"
    by (cases "fetch_stat fs (resolve cwd ''.'' start) s")
  note f1 = fetch_stat_frame [OF fs]
  show ?thesis
  proof (cases sr)
    case (Inl e)
    then show ?thesis using assms False fs f1
      by (auto simp: locateBlocking_def cacheKey_of_def Let_def)
  next
    case (Inr stats)
    define dir1 where "dir1 = (if \<not> stats then dirname (resolve cwd ''.'' start) else resolve cwd ''.'' start)"
    obtain wr s2 where w: "walk fs cwd callback (cacheKey_of cwd start callback) {} dir1 s1 = (wr, s2)"
      by (cases "walk fs cwd callback (cacheKey_of cwd start callback) {} dir1 s1")
    note pc = walk_pathCache [OF w]
    show ?thesis using assms False fs Inr w pc f1 ne
      by (auto simp: locateBlocking_def cacheKey_of_def Let_def dir1_def map_get_map_set
               split: sum.splits option.splits if_splits)
  qed
qed

lemma run_calls_keeps:
  "map_get (pathCache s) k = Some v \<Longrightarrow> map_get (pathCache (run_calls cs s)) k = Some v"
proof (induction cs arbitrary: s)
  case Nil
  then show ?case by simp
next
  case (Cons c cs)
  obtain fs cwd start callback where c: "c = (fs, cwd, start, callback)"
    by (cases c) auto
  have "map_get (pathCache (snd (locateBlocking fs cwd start callback s))) k = Some v"
    using locateBlocking_keeps [OF _ Cons.prems] by (metis prod.collapse)
  then show ?case using Cons.IH c by simp
qed

subsection \<open>The log of a walk\<close>

lemma iterations_simps [simp]:
  "iterations [] = 0"
  "iterations (Iteration d # ev) = Suc (iterations ev)"
  "iterations (ReaddirSync d # ev) = iterations ev"
  "iterations (StatSync d # ev) = iterations ev"
  "iterations (Invoke d a xs res # ev) = iterations ev"
  "iterations (ev @ ev') = iterations ev + iterations ev'"
  by (simp_all add: iterations_def)

lemma fetch_files_log:
  assumes "fetch_files fs dir (log_event (Iteration dir) s0) = (fr, s1)"
  shows "\<exists>rd. (rd = [] \<or> rd = [ReaddirSync dir]) \<and> trace s1 = trace s0 @ Iteration dir # rd"
  using fetch_files_frame [OF assms] by auto

lemma step_log:
  assumes "fetch_files fs dir (log_event (Iteration dir) s0) = (fr, s1)"
    and "invoke callback dir files s1 = (tmp, s2)"
  shows "\<exists>rd. (rd = [] \<or> rd = [ReaddirSync dir]) \<and>
           trace s2 = trace s0 @ Iteration dir # rd @ [Invoke dir files (heap s1 files) tmp]"
  using fetch_files_log [OF assms(1)] invoke_frame [OF assms(2)] by auto

lemma walk_extends:
  assumes "walk fs cwd callback cacheKey vis dir s0 = (r, s')"
  shows "\<exists>ev. trace s' = trace s0 @ ev"
  using assms
proof (induction rule: walk_rule)
  case (up vis dir s0 files s1 tmp s2 r s')
  then show ?case using step_log [OF up(2) up(4)] by auto
next
  case (found vis dir s0 files s1 p s2)
  then show ?case using step_log [OF found(2) found(4)] by auto
qed (auto dest: step_log fetch_files_log)

lemma walk_log_root:
  assumes "walk fs cwd callback cacheKey vis dir s0 = (r, s')"
  shows "\<forall>D a xs v. Invoke D a xs (Inr v) \<in> set (new_events s0 s') \<longrightarrow> \<not> truthy v \<longrightarrow>
           dirname D = D \<longrightarrow> r = Inr None"
  using assms
proof (induction rule: walk_rule)
  case (up vis dir s0 files s1 tmp s2 r s')
  obtain ev where ev: "trace s' = trace s2 @ ev" using walk_extends [OF up(7)] by blast
  obtain rd where rd: "rd = [] \<or> rd = [ReaddirSync dir]"
      "trace s2 = trace s0 @ Iteration dir # rd @ [Invoke dir files (heap s1 files) (Inr tmp)]"
    using step_log [OF up(2) up(4)] by blast
  have "new_events s0 s' = Iteration dir # rd @ [Invoke dir files (heap s1 files) (Inr tmp)] @ ev"
    using ev rd(2) by simp
  moreover have "new_events s2 s' = ev" using ev by simp
  ultimately show ?case using up(6) up(8) rd(1) by auto
next
  case (found vis dir s0 files s1 p s2)
  then show ?case using step_log [OF found(2) found(4)] by auto
next
  case (cb_error vis dir s0 files s1 e s2)
  then show ?case using step_log [OF cb_error(2) cb_error(4)] by auto
next
  case (not_string vis dir s0 files s1 s2)
  then show ?case using step_log [OF not_string(2) not_string(4)] by auto
next
  case (readdir_error vis dir s0 e s1)
  then show ?case using fetch_files_log [OF readdir_error(2)] by auto
next
  case (skipped vis dir s0 files s1)
  then show ?case using fetch_files_log [OF skipped(2)] by auto
qed auto

lemma walk_log_found:
  assumes "walk fs cwd callback cacheKey vis dir s0 = (r, s')"
  shows "\<forall>D a xs p. Invoke D a xs (Inr (Str p)) \<in> set (new_events s0 s') \<longrightarrow> p \<noteq> [] \<longrightarrow>
           r = Inr (Some (resolve cwd D p)) \<and> last (trace s') = Invoke D a xs (Inr (Str p))"
  using assms
proof (induction rule: walk_rule)
  case (up vis dir s0 files s1 tmp s2 r s')
  obtain ev where ev: "trace s' = trace s2 @ ev" using walk_extends [OF up(7)] by blast
  obtain rd where rd: "rd = [] \<or> rd = [ReaddirSync dir]"
      "trace s2 = trace s0 @ Iteration dir # rd @ [Invoke dir files (heap s1 files) (Inr tmp)]"
    using step_log [OF up(2) up(4)] by blast
  have "new_events s0 s' = Iteration dir # rd @ [Invoke dir files (heap s1 files) (Inr tmp)] @ ev"
    using ev rd(2) by simp
  moreover have "new_events s2 s' = ev" using ev by simp
  ultimately show ?case using up(5) up(8) rd(1) by auto
next
  case (found vis dir s0 files s1 p s2)
  then show ?case using step_log [OF found(2) found(4)] by auto
next
  case (cb_error vis dir s0 files s1 e s2)
  then show ?case using step_log [OF cb_error(2) cb_error(4)] by auto
next
  case (not_string vis dir s0 files s1 s2)
  then show ?case using step_log [OF not_string(2) not_string(4)] by auto
next
  case (at_root vis dir s0 files s1 tmp s2)
  then show ?case using step_log [OF at_root(2) at_root(4)] by auto
next
  case (readdir_error vis dir s0 e s1)
  then show ?case using fetch_files_log [OF readdir_error(2)] by auto
next
  case (skipped vis dir s0 files s1)
  then show ?case using fetch_files_log [OF skipped(2)] by auto
qed auto

lemma walk_log_normal:
  assumes "walk fs cwd callback cacheKey vis dir s0 = (r, s')"
  shows "\<forall>segs. list_all plain_name segs \<longrightarrow> dir = render segs \<longrightarrow>
           iterations (new_events s0 s') \<le> length segs + 1 \<and>
           (\<forall>D a xs res. Invoke D a xs res \<in> set (new_events s0 s') \<longrightarrow>
              (\<exists>ds. list_all plain_name ds \<and> D = render ds))"
  using assms
proof (induction rule: walk_rule)
  case (up vis dir s0 files s1 tmp s2 r s')
  obtain ev where ev: "trace s' = trace s2 @ ev" using walk_extends [OF up(7)] by blast
  obtain rd where rd: "rd = [] \<or> rd = [ReaddirSync dir]"
      "trace s2 = trace s0 @ Iteration dir # rd @ [Invoke dir files (heap s1 files) (Inr tmp)]"
    using step_log [OF up(2) up(4)] by blast
  have ne: "new_events s0 s' = Iteration dir # rd @ [Invoke dir files (heap s1 files) (Inr tmp)] @ ev"
    using ev rd(2) by simp
  have ne2: "new_events s2 s' = ev" using ev by simp
  show ?case
  proof (intro allI impI)
    fix segs assume segs: "list_all plain_name segs" "dir = render segs"
    then have d: "dirname dir = render (butlast segs)" by (simp add: dirname_render)
    have nonempty: "segs \<noteq> []" using up(6) d segs by auto
    have bl: "list_all plain_name (butlast segs)" using segs(1) by (rule list_all_butlast)
    from up(8) bl d have
      IH: "iterations ev \<le> length (butlast segs) + 1"
        "\<forall>D a xs res. Invoke D a xs res \<in> set ev \<longrightarrow> (\<exists>ds. list_all plain_name ds \<and> D = render ds)"
      unfolding ne2 by blast+
    have "iterations (new_events s0 s') \<le> length segs + 1"
      using IH(1) rd(1) nonempty unfolding ne by auto
    moreover have "\<forall>D a xs res. Invoke D a xs res \<in> set (new_events s0 s') \<longrightarrow>
              (\<exists>ds. list_all plain_name ds \<and> D = render ds)"
      using IH(2) rd(1) segs unfolding ne by (auto, blast+)
    ultimately show "iterations (new_events s0 s') \<le> length segs + 1 \<and>
           (\<forall>D a xs res. Invoke D a xs res \<in> set (new_events s0 s') \<longrightarrow>
              (\<exists>ds. list_all plain_name ds \<and> D = render ds))" by simp
  qed
next
  case (found vis dir s0 files s1 p s2)
  then show ?case using step_log [OF found(2) found(4)] by auto
next
  case (cb_error vis dir s0 files s1 e s2)
  then show ?case using step_log [OF cb_error(2) cb_error(4)] by auto
next
  case (not_string vis dir s0 files s1 s2)
  then show ?case using step_log [OF not_string(2) not_string(4)] by auto
next
  case (at_root vis dir s0 files s1 tmp s2)
  then show ?case using step_log [OF at_root(2) at_root(4)] by auto
next
  case (readdir_error vis dir s0 e s1)
  then show ?case using fetch_files_log [OF readdir_error(2)] by auto
next
  case (skipped vis dir s0 files s1)
  then show ?case using fetch_files_log [OF skipped(2)] by auto
qed auto

subsection \<open>The three ways a call can go\<close>

lemma locateBlocking_cases [consumes 1, case_names hit stat_error walked]:
  assumes "locateBlocking fs cwd start callback s = (r, s')"
  obtains
    x where "map_get (pathCache s) (cacheKey_of cwd start callback) = Some x" "r = Inr x" "s' = s"
  | e where "\<not> map_has (pathCache s) (cacheKey_of cwd start callback)"
      "fetch_stat fs (resolve cwd ''.'' start) s = (Inl e, s')" "r = Inl e"
  | stats s1 s2 where "\<not> map_has (pathCache s) (cacheKey_of cwd start callback)"
      "fetch_stat fs (resolve cwd ''.'' start) s = (Inr stats, s1)"
      "walk fs cwd callback (cacheKey_of cwd start callback) {}
         (if \<not> stats then dirname (resolve cwd ''.'' start) else resolve cwd ''.'' start) s1 = (r, s2)"
      "s' = (case r of
               Inr None \<Rightarrow> s2\<lparr>pathCache := map_set (pathCache s2) (cacheKey_of cwd start callback) None\<rparr>
             | _ \<Rightarrow> s2)"
proof (cases "map_has (pathCache s) (cacheKey_of cwd start callback)")
  case True
  then obtain x where "map_get (pathCache s) (cacheKey_of cwd start callback) = Some x"
    by (auto simp: map_has_get)
  then show ?thesis using assms that(1) True
    by (simp add: locateBlocking_def cacheKey_of_def Let_def)
next
  case False
  obtain sr s1 where fs: "fetch_stat fs (resolve cwd ''.'' start) s = (sr, s1)"
    by (cases "fetch_stat fs (resolve cwd ''.'' start) s")
  show ?thesis
  proof (cases sr)
    case (Inl e)
    then show ?thesis using assms False fs that(2)
      by (simp add: locateBlocking_def cacheKey_of_def Let_def)
  next
    case (Inr stats)
    define dir1 where
      "dir1 = (if \<not> stats then dirname (resolve cwd ''.'' start) else resolve cwd ''.'' start)"
    obtain wr s2 where
      w: "walk fs cwd callback (cacheKey_of cwd start callback) {} dir1 s1 = (wr, s2)"
      by (cases "walk fs cwd callback (cacheKey_of cwd start callback) {} dir1 s1")
    have "r = wr \<and> s' = (case wr of
               Inr None \<Rightarrow> s2\<lparr>pathCache := map_set (pathCache s2) (cacheKey_of cwd start callback) None\<rparr>
             | _ \<Rightarrow> s2)"
      using assms False fs Inr w
      by (auto simp: locateBlocking_def cacheKey_of_def Let_def dir1_def
               split: sum.splits option.splits if_splits)
    then show ?thesis using that(3) [OF False fs [unfolded Inr]] w unfolding dir1_def by simp
  qed
qed

lemma fetch_stat_log:
  assumes "fetch_stat fs dir s = (sr, s1)"
  shows "\<exists>st. (st = [] \<or> st = [StatSync dir]) \<and> trace s1 = trace s @ st"
  using fetch_stat_frame [OF assms] by auto

lemma trace_after_walk:
  "trace (case r of Inr None \<Rightarrow> s2\<lparr>pathCache := m\<rparr> | _ \<Rightarrow> s2) = trace s2"
  by (auto split: sum.splits option.splits)

lemma join_slash_Cons: "xs \<noteq> [] \<Longrightarrow> join_slash (x # xs) = x @ CHR ''/'' # join_slash xs"
  by (cases xs) auto

lemma join_split_slash: "join_slash (split_slash t) = t"
proof (induction t)
  case Nil
  then show ?case by simp
next
  case (Cons c cs)
  show ?case
  proof (cases "c = CHR ''/''")
    case True
    then show ?thesis using Cons by (simp add: join_slash_Cons)
  next
    case False
    obtain x xs where x: "split_slash cs = x # xs" by (cases "split_slash cs") auto
    then have "join_slash ((c # x) # xs) = c # join_slash (x # xs)" by (cases xs) auto
    then show ?thesis using Cons x False by simp
  qed
qed

lemma normal_path_render:
  assumes "normal_path p"
  shows "\<exists>segs. list_all plain_name segs \<and> p = render segs"
proof (cases "p = ''/''")
  case True
  then have "list_all plain_name [] \<and> p = render []" by (simp add: render_def)
  then show ?thesis by blast
next
  case False
  then have abs: "isAbsolute p" and segs: "list_all plain_name (split_slash (tl p))"
    using assms by (auto simp: normal_path_def)
  from abs obtain t where "p = CHR ''/'' # t" by (cases p) (auto simp: isAbsolute_def)
  then have "p = render (split_slash (tl p))" by (simp add: render_def join_split_slash)
  then show ?thesis using segs by blast
qed

lemma render_eq_root: "list_all plain_name ds \<Longrightarrow> (render ds = ''/'') = (ds = [])"
  by (cases ds rule: join_slash.cases) (auto simp: render_def plain_name_def)

lemma locateBlocking_log:
  assumes "locateBlocking fs cwd start callback s = (r, s')"
    and "Invoke D files names res \<in> set (new_events s s')"
  obtains stats s1 s2 where
      "walk fs cwd callback (cacheKey_of cwd start callback) {}
         (if \<not> stats then dirname (resolve cwd ''.'' start) else resolve cwd ''.'' start) s1 = (r, s2)"
      "Invoke D files names res \<in> set (new_events s1 s2)"
      "trace s' = trace s2"
  using assms(1)
proof (cases rule: locateBlocking_cases)
  case (hit x)
  then show ?thesis using assms(2) by (simp add: new_events_def)
next
  case (stat_error e)
  then show ?thesis using assms(2) fetch_stat_log [OF stat_error(2)] by auto
next
  case (walked stats s1 s2)
  obtain st where st: "st = [] \<or> st = [StatSync (resolve cwd ''.'' start)]" "trace s1 = trace s @ st"
    using fetch_stat_log [OF walked(2)] by blast
  obtain ev where ev: "trace s2 = trace s1 @ ev" using walk_extends [OF walked(3)] by blast
  have t: "trace s' = trace s2" using walked(4) by (simp add: trace_after_walk)
  then have "new_events s s' = st @ ev" using st(2) ev by simp
  then have "Invoke D files names res \<in> set (new_events s1 s2)"
    using assms(2) st(1) ev by auto
  then show ?thesis using that walked(3) t by blast
qed

lemma start_dir_normal:
  "\<exists>segs. list_all plain_name segs \<and>
     (if \<not> stats then dirname (resolve cwd a b) else resolve cwd a b) = render segs
     \<and> length segs \<le> depth (resolve cwd a b)"
proof -
  obtain segs where segs: "list_all plain_name segs" "resolve cwd a b = render segs"
    using resolve_normal by blast
  show ?thesis
  proof (cases stats)
    case True
    then show ?thesis using segs by (auto simp: depth_render)
  next
    case False
    have "list_all plain_name (butlast segs)" using segs(1) by (rule list_all_butlast)
    moreover have "dirname (resolve cwd a b) = render (butlast segs)"
      using segs by (simp add: dirname_render)
    moreover have "length (butlast segs) \<le> depth (resolve cwd a b)"
      using segs by (simp add: depth_render)
    ultimately show ?thesis using False by auto
  qed
qed

subsection \<open>Sequences of calls\<close>

lemma run_calls_append: "run_calls (cs @ ds) s = run_calls ds (run_calls cs s)"
  by (induction cs arbitrary: s) auto

lemma locateBlocking_miss_adds:
  assumes "locateBlocking fs cwd start callback s = (Inr r, s')"
    and "\<not> map_has (pathCache s) (cacheKey_of cwd start callback)"
  shows "pathCache s' = map_set (pathCache s) (cacheKey_of cwd start callback) r"
  using assms(1)
proof (cases rule: locateBlocking_cases)
  case (hit x)
  then show ?thesis using assms(2) by (simp add: map_has_get)
next
  case (stat_error e)
  then show ?thesis by simp
next
  case (walked stats s1 s2)
  show ?thesis
    using walked(4) walk_pathCache [OF walked(3)] fetch_stat_frame [OF walked(2)]
    by (cases r) auto
qed

subsection \<open>A hundred and two files\<close>

lemma getCachedReaddir_setCachedStat [simp]:
  "getCachedReaddir (setCachedStat s p b) q = getCachedReaddir s q"
  by (simp add: getCachedReaddir_def)

lemma setCachedStat_addToCache:
  "statCache (setCachedStat s p b) = fst (addToCache (statCache s) p b (cacheKeys s))"
  "cacheKeys (setCachedStat s p b) = snd (addToCache (statCache s) p b (cacheKeys s))"
  by (simp_all add: setCachedStat_def split: prod.splits)

lemma file_path_facts:
  "resolve ''/'' ''.'' (file_path i) = file_path i"
  "dirname (file_path i) = ''/''"
  "file_path i \<noteq> ''/''"
proof -
  have p: "list_all plain_name [replicate (Suc i) (CHR ''f'')]"
    by (cases i) (auto simp: plain_name_def)
  have r: "file_path i = render [replicate (Suc i) (CHR ''f'')]"
    by (simp add: file_path_def render_def)
  show "resolve ''/'' ''.'' (file_path i) = file_path i"
    unfolding r by (rule resolve_absolute_normal [OF p])
  show "dirname (file_path i) = ''/''"
    unfolding r dirname_render [OF p] by (simp add: render_def)
  show "file_path i \<noteq> ''/''" by (simp add: file_path_def)
qed

lemma file_call_effect:
  assumes "\<not> map_has (pathCache s) (cacheKey_of ''/'' (file_path i) cb_never)"
    and "getCachedStat s (file_path i) = None"
    and "getCachedReaddir s ''/'' = Some a"
  defines "s' \<equiv> snd (locateBlocking fs_flat ''/'' (file_path i) cb_never s)"
  shows "statCache s' = fst (addToCache (statCache s) (file_path i) False (cacheKeys s))
         \<and> cacheKeys s' = snd (addToCache (statCache s) (file_path i) False (cacheKeys s))
         \<and> readdirCache s' = readdirCache s
         \<and> pathCache s' = map_set (pathCache s) (cacheKey_of ''/'' (file_path i) cb_never) None"
proof -
  have d: "dirname ''/'' = ''/''" by (simp add: dirname_def)
  define s1 where "s1 = setCachedStat (log_event (StatSync (file_path i)) s) (file_path i) False"
  have st: "fetch_stat fs_flat (file_path i) s = (Inr False, s1)"
    using assms(2) file_path_facts(3) [of i]
    by (simp add: fetch_stat_def fs_flat_def s1_def Let_def)
  have ff: "fetch_files fs_flat ''/'' (log_event (Iteration ''/'') s1)
            = (Inr a, log_event (Iteration ''/'') s1)"
    using assms(3) by (simp add: fetch_files_def s1_def)
  define s2 where "s2 = snd (invoke cb_never ''/'' a (log_event (Iteration ''/'') s1))"
  have inv: "invoke cb_never ''/'' a (log_event (Iteration ''/'') s1) = (Inr (Bool False), s2)"
    by (simp add: invoke_def cb_never_def s2_def)
  have w: "walk fs_flat ''/'' cb_never k {} ''/'' s1 = (Inr None, s2)" for k
    using ff inv by (simp add: walk.simps [of _ _ _ _ _ "''/''"] d SKIP_DIRS_def)
  obtain x t where call: "locateBlocking fs_flat ''/'' (file_path i) cb_never s = (x, t)"
    by (cases "locateBlocking fs_flat ''/'' (file_path i) cb_never s")
  from call have "t = s2\<lparr>pathCache :=
                      map_set (pathCache s2) (cacheKey_of ''/'' (file_path i) cb_never) None\<rparr>"
  proof (cases rule: locateBlocking_cases)
    case (hit y)
    then show ?thesis using assms(1) by (simp add: map_has_get)
  next
    case (stat_error e)
    then show ?thesis using st by (simp add: file_path_facts)
  next
    case (walked stats u1 u2)
    then show ?thesis using st w by (auto simp: file_path_facts)
  qed
  moreover have "s' = t" using call by (simp add: s'_def)
  moreover have "statCache s2 = statCache s1 \<and> cacheKeys s2 = cacheKeys s1
                 \<and> readdirCache s2 = readdirCache s1 \<and> pathCache s2 = pathCache s1"
    using invoke_frame [OF inv] by simp
  ultimately show ?thesis
    by (simp add: s1_def setCachedStat_addToCache)
qed

lemma addToCache_room:
  assumes "length cache < 100" and "key \<notin> set (map fst cache)"
  shows "map fst (fst (addToCache cache key v keys)) = map fst cache @ [key]"
    and "snd (addToCache cache key v keys) = keys @ [key]"
  using assms by (simp_all add: addToCache_def map_size_def MAX_CACHE_SIZE_def map_fst_map_set)

lemma map_fst_map_delete: "map fst (map_delete m k) = filter (\<lambda>x. x \<noteq> k) (map fst m)"
  by (induction m) (auto simp: map_delete_def)

lemma addToCache_full:
  assumes "100 \<le> length cache"
  shows "map fst (fst (addToCache cache key v (oldest # keys)))
           = map fst (map_set (map_delete cache oldest) key v)"
    and "snd (addToCache cache key v (oldest # keys)) = keys @ [key]"
  using assms by (simp_all add: addToCache_def map_size_def MAX_CACHE_SIZE_def)

lemma file_path_inj: "(file_path i = file_path j) = (i = j)"
proof
  assume "file_path i = file_path j"
  then have "length (file_path i) = length (file_path j)" by simp
  then show "i = j" by (simp add: file_path_def)
qed simp

lemma file_key_inj:
  "(cacheKey_of ''/'' (file_path i) cb_never = cacheKey_of ''/'' (file_path j) cb_never) = (i = j)"
  by (simp add: cacheKey_of_def file_path_facts file_path_inj)

text \<open>The caches after the first \<open>n\<close> calls, as long as the metadata cache has room.\<close>

lemma file_calls_below_capacity:
  assumes "n < 100"
  defines "s \<equiv> run_calls (file_calls (Suc n)) init_state"
  shows "map fst (statCache s) = map file_path [0..<Suc n]
         \<and> cacheKeys s = file_path 0 # ''/'' # map file_path [1..<Suc n]
         \<and> readdirCache s = [(''/'', 0)]
         \<and> map fst (pathCache s) = map (\<lambda>i. cacheKey_of ''/'' (file_path i) cb_never) [0..<Suc n]"
  using assms(1) unfolding s_def
proof (induction n)
  case 0
  show ?case
    by (simp add: file_calls_def file_path_def cacheKey_of_def escalade_defs fs_flat_def cb_never_def)
next
  case (Suc n)
  define t where "t = run_calls (file_calls (Suc n)) init_state"
  have IH: "map fst (statCache t) = map file_path [0..<Suc n]"
      "cacheKeys t = file_path 0 # ''/'' # map file_path [1..<Suc n]"
      "readdirCache t = [(''/'', 0)]"
      "map fst (pathCache t) = map (\<lambda>i. cacheKey_of ''/'' (file_path i) cb_never) [0..<Suc n]"
    using Suc by (simp_all add: t_def)
  have miss: "\<not> map_has (pathCache t) (cacheKey_of ''/'' (file_path (Suc n)) cb_never)"
    unfolding map_has_keys IH(4) by (auto simp: file_key_inj)
  have nostat: "file_path (Suc n) \<notin> set (map fst (statCache t))"
    unfolding IH(1) by (auto simp: file_path_inj)
  then have nostat': "getCachedStat t (file_path (Suc n)) = None"
    by (simp add: getCachedStat_def map_has_keys)
  have rd: "getCachedReaddir t ''/'' = Some 0"
    by (simp add: getCachedReaddir_def IH(3) map_has_def map_get_def)
  have len: "length (statCache t) < 100"
    using Suc.prems arg_cong [OF IH(1), of length] by simp
  define u where "u = snd (locateBlocking fs_flat ''/'' (file_path (Suc n)) cb_never t)"
  note eff = file_call_effect [OF miss nostat' rd, folded u_def]
  have "run_calls (file_calls (Suc (Suc n))) init_state = u"
    by (simp add: file_calls_def run_calls_append t_def u_def)
  moreover have "map fst (statCache u) = map file_path [0..<Suc (Suc n)]"
    using eff addToCache_room(1) [OF len nostat] IH(1) by simp
  moreover have "cacheKeys u = file_path 0 # ''/'' # map file_path [1..<Suc (Suc n)]"
    using eff addToCache_room(2) [OF len nostat] IH(2) by simp
  moreover have "readdirCache u = [(''/'', 0)]" using eff IH(3) by simp
  moreover have "map fst (pathCache u)
                 = map (\<lambda>i. cacheKey_of ''/'' (file_path i) cb_never) [0..<Suc (Suc n)]"
    using eff miss IH(4) by (simp add: map_fst_map_set map_has_keys)
  ultimately show ?case by simp
qed

lemma filter_file_path:
  "filter (\<lambda>x. x \<noteq> file_path 0) (map file_path [0..<Suc n]) = map file_path [1..<Suc n]"
proof -
  have "[0..<Suc n] = 0 # [1..<Suc n]" by (simp add: upt_conv_Cons)
  moreover have "filter (\<lambda>x. x \<noteq> file_path 0) (map file_path [1..<Suc n]) = map file_path [1..<Suc n]"
    by (rule filter_True) (auto simp: file_path_inj)
  ultimately show ?thesis by simp
qed

lemma filter_root_file_path:
  "filter (\<lambda>x. x \<noteq> ''/'') (map file_path xs) = map file_path xs"
  by (rule filter_True) (auto simp: file_path_facts)

text \<open>The 101st call finds the metadata cache full and evicts its earliest key, \<open>/f\<close>.\<close>

lemma file_calls_at_capacity:
  defines "s \<equiv> run_calls (file_calls 101) init_state"
  shows "map fst (statCache s) = map file_path [1..<101]
         \<and> cacheKeys s = ''/'' # map file_path [1..<101]
         \<and> readdirCache s = [(''/'', 0)]
         \<and> map fst (pathCache s) = map (\<lambda>i. cacheKey_of ''/'' (file_path i) cb_never) [0..<101]"
proof -
  define t where "t = run_calls (file_calls 100) init_state"
  have IH: "map fst (statCache t) = map file_path [0..<100]"
      "cacheKeys t = file_path 0 # ''/'' # map file_path [1..<100]"
      "readdirCache t = [(''/'', 0)]"
      "map fst (pathCache t) = map (\<lambda>i. cacheKey_of ''/'' (file_path i) cb_never) [0..<100]"
    using file_calls_below_capacity [of 99] by (simp_all add: t_def)
  have miss: "\<not> map_has (pathCache t) (cacheKey_of ''/'' (file_path 100) cb_never)"
    unfolding map_has_keys IH(4) by (auto simp: file_key_inj)
  have nostat: "file_path 100 \<notin> set (map fst (statCache t))"
    unfolding IH(1) by (auto simp: file_path_inj)
  then have nostat': "getCachedStat t (file_path 100) = None"
    by (simp add: getCachedStat_def map_has_keys)
  have rd: "getCachedReaddir t ''/'' = Some 0"
    by (simp add: getCachedReaddir_def IH(3) map_has_def map_get_def)
  have len: "100 \<le> length (statCache t)"
    using arg_cong [OF IH(1), of length] by simp
  define u where "u = snd (locateBlocking fs_flat ''/'' (file_path 100) cb_never t)"
  note eff = file_call_effect [OF miss nostat' rd, folded u_def]
  have "[0..<101] = [0..<100] @ [100]" using upt_Suc_append [of 0 100] by simp
  then have "run_calls (file_calls 101) init_state = u"
    by (simp add: file_calls_def run_calls_append t_def u_def)
  moreover have "map fst (statCache u) = map file_path [1..<101]"
  proof -
    have "map fst (map_delete (statCache t) (file_path 0)) = map file_path [1..<100]"
      unfolding map_fst_map_delete IH(1) using filter_file_path [of 99] by simp
    moreover have "file_path 100 \<notin> set (map file_path [1..<100])" by (auto simp: file_path_inj)
    ultimately have "map fst (map_set (map_delete (statCache t) (file_path 0)) (file_path 100) False)
                     = map file_path [1..<100] @ [file_path 100]"
      by (simp add: map_fst_map_set)
    moreover have "[1..<101] = [1..<100] @ [100]"
      using upt_Suc_append [of 1 100] by simp
    ultimately show ?thesis
      using eff addToCache_full(1) [OF len, of "file_path 100" False "file_path 0"] IH(2) by simp
  qed
  moreover have "cacheKeys u = ''/'' # map file_path [1..<101]"
  proof -
    have "[1..<101] = [1..<100] @ [100]"
      using upt_Suc_append [of 1 100] by simp
    then show ?thesis
      using eff addToCache_full(2) [OF len, of "file_path 100" False "file_path 0"] IH(2) by simp
  qed
  moreover have "readdirCache u = [(''/'', 0)]" using eff IH(3) by simp
  moreover have "map fst (pathCache u)
                 = map (\<lambda>i. cacheKey_of ''/'' (file_path i) cb_never) [0..<101]"
    using eff miss IH(4) \<open>[0..<101] = [0..<100] @ [100]\<close> by (simp add: map_fst_map_set map_has_keys)
  ultimately show ?thesis by (simp add: s_def)
qed

subsection \<open>The listing cache and the store of arrays\<close>

lemma getCachedReaddir_map_of: "getCachedReaddir s p = map_of (readdirCache s) p"
proof (cases "p \<in> fst ` set (readdirCache s)")
  case True
  then show ?thesis by (simp add: getCachedReaddir_def map_has_def map_get_def)
next
  case False
  then have "map_of (readdirCache s) p = None" by (simp add: map_of_eq_None_iff)
  then show ?thesis using False by (simp add: getCachedReaddir_def map_has_def)
qed

lemma map_of_filter_distinct:
  "distinct (map fst m) \<Longrightarrow> map_of (filter P m) k = None \<or> map_of (filter P m) k = map_of m k"
proof (induction m)
  case Nil
  then show ?case by simp
next
  case (Cons x m)
  then have IH: "map_of (filter P m) k = None \<or> map_of (filter P m) k = map_of m k" by simp
  show ?case
  proof (cases "fst x = k")
    case True
    then have "k \<notin> fst ` set m" using Cons.prems by auto
    then have "map_of m k = None" by (simp add: map_of_eq_None_iff)
    then have "map_of (filter P m) k = None" using IH by auto
    then show ?thesis using True by (cases x) auto
  next
    case False
    then show ?thesis using IH by (cases x) auto
  qed
qed

lemma addToCache_miss:
  assumes "key \<notin> set (map fst cache)"
  shows "\<exists>P. fst (addToCache cache key v keys) = filter P cache @ [(key, v)]"
proof -
  have set_app: "map_set m key v = m @ [(key, v)]" if "key \<notin> set (map fst m)" for m
    using that by (induction m) auto
  have del: "key \<notin> set (map fst (map_delete cache k))" for k
    using assms by (auto simp: map_delete_def)
  have f: "filter (\<lambda>x. True) cache = cache" by simp
  show ?thesis
  proof (cases "map_size cache \<ge> MAX_CACHE_SIZE")
    case False
    then have "fst (addToCache cache key v keys) = filter (\<lambda>x. True) cache @ [(key, v)]"
      using set_app [OF assms] by (simp add: addToCache_def)
    then show ?thesis by blast
  next
    case True
    show ?thesis
    proof (cases keys)
      case Nil
      then have "fst (addToCache cache key v keys) = filter (\<lambda>x. True) cache @ [(key, v)]"
        using True set_app [OF assms] by (simp add: addToCache_def)
      then show ?thesis by blast
    next
      case (Cons k ks)
      then have "fst (addToCache cache key v keys)
                 = filter (\<lambda>kv. fst kv \<noteq> k) cache @ [(key, v)]"
        using True set_app [OF del [of k]] by (simp add: addToCache_def map_delete_def)
      then show ?thesis by blast
    qed
  qed
qed

lemma distinct_snd_inj:
  "distinct (map snd m) \<Longrightarrow> map_of m k = Some a \<Longrightarrow> map_of m k' = Some a \<Longrightarrow> k = k'"
proof (induction m)
  case Nil
  then show ?case by simp
next
  case (Cons x m)
  obtain kx ax where x: "x = (kx, ax)" by (cases x)
  have notin: "ax \<notin> snd ` set m" using Cons.prems(1) x by simp
  have later: "map_of m q = Some b \<Longrightarrow> b \<noteq> ax" for q b
    using notin map_of_SomeD [of m q b] by (metis imageI snd_conv)
  show ?case
    using Cons x later by (auto split: if_splits)
qed

lemma cached_allocated:
  "cache_ok s \<Longrightarrow> getCachedReaddir s p = Some a \<Longrightarrow> a < next_addr s"
  by (auto simp: cache_ok_def getCachedReaddir_map_of list_all_iff dest!: map_of_SomeD)

text \<open>What lines 76 to 80 do to the listing cache.\<close>

lemma fetch_files_cache:
  assumes "fetch_files fs dir s = (fr, s1)" and "cache_ok s"
  shows "cache_ok s1"
    and "next_addr s \<le> next_addr s1"
    and "\<And>a. a < next_addr s \<Longrightarrow> heap s1 a = heap s a"
    and "\<And>D. D \<noteq> dir \<Longrightarrow>
           getCachedReaddir s1 D = None \<or> getCachedReaddir s1 D = getCachedReaddir s D"
    and "\<And>files. fr = Inr files \<Longrightarrow> getCachedReaddir s1 dir = Some files"
    and "\<And>files. fr = Inr files \<Longrightarrow>
           (getCachedReaddir s dir = Some files \<and> heap s1 = heap s)
           \<or> ReaddirSync dir \<in> set (new_events s s1)"
proof -
  consider (hit) files where "getCachedReaddir s dir = Some files" "fr = Inr files" "s1 = s"
    | (fail) e where "getCachedReaddir s dir = None" "fr = Inl e"
        "s1 = log_event (ReaddirSync dir) s"
    | (miss) names where "getCachedReaddir s dir = None" "fr = Inr (next_addr s)"
        "s1 = setCachedReaddir
               (log_event (ReaddirSync dir) s
                  \<lparr>heap := (heap s)(next_addr s := names), next_addr := Suc (next_addr s)\<rparr>)
               dir (next_addr s)"
    using assms(1) by (auto simp: fetch_files_def Let_def split: option.splits sum.splits)
  then have all: "cache_ok s1 \<and> next_addr s \<le> next_addr s1
      \<and> (\<forall>a. a < next_addr s \<longrightarrow> heap s1 a = heap s a)
      \<and> (\<forall>D. D \<noteq> dir \<longrightarrow>
           getCachedReaddir s1 D = None \<or> getCachedReaddir s1 D = getCachedReaddir s D)
      \<and> (\<forall>files. fr = Inr files \<longrightarrow> getCachedReaddir s1 dir = Some files)
      \<and> (\<forall>files. fr = Inr files \<longrightarrow>
           (getCachedReaddir s dir = Some files \<and> heap s1 = heap s)
           \<or> ReaddirSync dir \<in> set (new_events s s1))"
  proof cases
    case (hit files)
    then show ?thesis using assms(2) by simp
  next
    case (fail e)
    then show ?thesis using assms(2) by (simp add: cache_ok_def getCachedReaddir_map_of)
  next
    case (miss names)
    define m where "m = readdirCache s"
    have nokey: "dir \<notin> set (map fst m)"
      using miss(1) by (simp add: getCachedReaddir_map_of m_def map_of_eq_None_iff)
    obtain P where P: "fst (addToCache m dir (next_addr s) (cacheKeys s))
                       = filter P m @ [(dir, next_addr s)]"
      using addToCache_miss [OF nokey] by blast
    have rc: "readdirCache s1 = filter P m @ [(dir, next_addr s)]"
      using P by (simp add: miss(3) setCachedReaddir_def m_def case_prod_beta)
    have na: "next_addr s1 = Suc (next_addr s)" by (simp add: miss(3))
    have hp: "heap s1 = (heap s)(next_addr s := names)" by (simp add: miss(3))
    have tr: "trace s1 = trace s @ [ReaddirSync dir]" by (simp add: miss(3))
    have d1: "distinct (map fst m)" and d2: "distinct (map snd m)"
      and lt: "\<forall>a \<in> set (map snd m). a < next_addr s"
      using assms(2) by (simp_all add: cache_ok_def m_def list_all_iff)
    have fresh: "next_addr s \<notin> snd ` set (filter P m)" using lt by auto
    have "cache_ok s1"
      unfolding cache_ok_def rc na
      using d1 d2 lt nokey fresh
      by (auto simp: distinct_map_filter list_all_iff less_Suc_eq)
    moreover have "getCachedReaddir s1 D = None \<or> getCachedReaddir s1 D = getCachedReaddir s D"
      if "D \<noteq> dir" for D
      using map_of_filter_distinct [OF d1, of P D] that
      by (auto simp: getCachedReaddir_map_of rc m_def [symmetric] map_add_def
               split: option.splits)
    moreover have "getCachedReaddir s1 dir = Some (next_addr s)"
    proof -
      have "dir \<notin> fst ` set (filter P m)" using nokey by auto
      then have "map_of (filter P m) dir = None" by (simp add: map_of_eq_None_iff)
      then show ?thesis by (simp add: getCachedReaddir_map_of rc map_add_def)
    qed
    ultimately show ?thesis using miss(2) na hp tr by auto
  qed
  show "cache_ok s1" "next_addr s \<le> next_addr s1"
    "\<And>a. a < next_addr s \<Longrightarrow> heap s1 a = heap s a"
    "\<And>D. D \<noteq> dir \<Longrightarrow>
           getCachedReaddir s1 D = None \<or> getCachedReaddir s1 D = getCachedReaddir s D"
    "\<And>files. fr = Inr files \<Longrightarrow> getCachedReaddir s1 dir = Some files"
    "\<And>files. fr = Inr files \<Longrightarrow>
           (getCachedReaddir s dir = Some files \<and> heap s1 = heap s)
           \<or> ReaddirSync dir \<in> set (new_events s s1)"
    using all by blast+
qed

lemma cache_ok_simps [simp]:
  "cache_ok (log_event e s) = cache_ok s"
  "cache_ok (s\<lparr>pathCache := m\<rparr>) = cache_ok s"
  "cache_ok (setCachedStat s p b) = cache_ok s"
  by (simp_all add: cache_ok_def)

lemma getCachedReaddir_pathCache [simp]:
  "getCachedReaddir (s\<lparr>pathCache := m\<rparr>) p = getCachedReaddir s p"
  by (simp add: getCachedReaddir_def)

lemma invoke_cache:
  assumes "invoke callback dir files s = (tmp, s2)"
  shows "cache_ok s2 = cache_ok s"
    and "getCachedReaddir s2 D = getCachedReaddir s D"
    and "next_addr s2 = next_addr s"
    and "heap s2 = (heap s)(files := snd (cb_apply callback dir (heap s files)))"
  using invoke_frame [OF assms] by (simp_all add: cache_ok_def getCachedReaddir_def)

text \<open>One pass through the loop body up to the callback's return.\<close>

lemma step_head:
  assumes "fetch_files fs dir (log_event (Iteration dir) s0) = (Inr files, s1)"
    and "invoke callback dir files s1 = (tmp, s2)"
  shows "\<exists>rd. trace s2 = trace s0 @ Iteration dir # rd @ [Invoke dir files (heap s1 files) tmp]
              \<and> (rd = [] \<and> getCachedReaddir s0 dir = Some files \<and> heap s1 = heap s0
                  \<or> rd = [ReaddirSync dir])"
proof -
  have tr2: "trace s2 = trace s1 @ [Invoke dir files (heap s1 files) tmp]"
    using invoke_frame [OF assms(2)] by simp
  show ?thesis
  proof (cases "getCachedReaddir s0 dir")
    case None
    then have "trace s1 = trace s0 @ [Iteration dir, ReaddirSync dir]"
      using fetch_files_frame [OF assms(1)] by simp
    then show ?thesis using tr2 by simp
  next
    case (Some a)
    then have "s1 = log_event (Iteration dir) s0 \<and> files = a"
      using assms(1) by (simp add: fetch_files_def)
    then show ?thesis using tr2 Some by simp
  qed
qed

lemma step_alias:
  assumes "fetch_files fs dir (log_event (Iteration dir) s0) = (Inr files, s1)"
    and "invoke callback dir files s1 = (tmp, s2)"
    and "cache_ok s0"
  shows "cache_ok s2"
    and "next_addr s0 \<le> next_addr s2"
    and "getCachedReaddir s2 dir = Some files"
    and "heap s2 files = snd (cb_apply callback dir (heap s1 files))"
proof -
  have ok0: "cache_ok (log_event (Iteration dir) s0)" using assms(3) by simp
  note ff = fetch_files_cache [OF assms(1) ok0]
  show "cache_ok s2" using ff(1) invoke_cache(1) [OF assms(2)] by simp
  show "next_addr s0 \<le> next_addr s2" using ff(2) invoke_cache(3) [OF assms(2)] by simp
  show "getCachedReaddir s2 dir = Some files"
    using ff(5) invoke_cache(2) [OF assms(2)] by simp
  show "heap s2 files = snd (cb_apply callback dir (heap s1 files))"
    using invoke_cache(4) [OF assms(2)] by simp
qed

lemma step_frame:
  assumes "fetch_files fs dir (log_event (Iteration dir) s0) = (Inr files, s1)"
    and "invoke callback dir files s1 = (tmp, s2)"
    and "cache_ok s0" and "D \<noteq> dir"
  shows "getCachedReaddir s2 D = None
         \<or> (getCachedReaddir s2 D = getCachedReaddir s0 D
            \<and> (\<forall>a. getCachedReaddir s0 D = Some a \<longrightarrow> heap s2 a = heap s0 a))"
proof (cases "getCachedReaddir s2 D")
  case None
  then show ?thesis by simp
next
  case (Some a)
  have ok0: "cache_ok (log_event (Iteration dir) s0)" using assms(3) by simp
  note ff = fetch_files_cache [OF assms(1) ok0]
  have s1D: "getCachedReaddir s1 D = Some a" using Some invoke_cache(2) [OF assms(2)] by simp
  then have s0D: "getCachedReaddir s0 D = Some a" using ff(4) [OF assms(4)] by auto
  have s1dir: "getCachedReaddir s1 dir = Some files" using ff(5) by simp
  have "a \<noteq> files"
  proof
    assume "a = files"
    then have "D = dir"
      using distinct_snd_inj [of "readdirCache s1" D a dir] s1D s1dir ff(1)
      by (simp add: cache_ok_def getCachedReaddir_map_of)
    then show False using assms(4) by simp
  qed
  moreover have "a < next_addr s0" using cached_allocated [OF assms(3) s0D] .
  ultimately have "heap s2 a = heap s0 a"
    using ff(3) [of a] invoke_cache(4) [OF assms(2)] by simp
  then show ?thesis using Some s0D by simp
qed

lemma fetch_only_frame:
  assumes "fetch_files fs dir (log_event (Iteration dir) s0) = (fr, s1)"
    and "cache_ok s0" and "D \<noteq> dir"
  shows "cache_ok s1 \<and> next_addr s0 \<le> next_addr s1
         \<and> (getCachedReaddir s1 D = None
            \<or> (getCachedReaddir s1 D = getCachedReaddir s0 D
               \<and> (\<forall>a. getCachedReaddir s0 D = Some a \<longrightarrow> heap s1 a = heap s0 a)))"
proof -
  have ok0: "cache_ok (log_event (Iteration dir) s0)" using assms(2) by simp
  note ff = fetch_files_cache [OF assms(1) ok0]
  have "heap s1 a = heap s0 a" if "getCachedReaddir s0 D = Some a" for a
    using ff(3) [of a] cached_allocated [OF assms(2) that] by simp
  then show ?thesis using ff(1,2) ff(4) [OF assms(3)] by auto
qed

lemma walk_cache_ok:
  assumes "walk fs cwd callback cacheKey vis dir s0 = (r, s')"
  shows "cache_ok s0 \<longrightarrow> cache_ok s' \<and> next_addr s0 \<le> next_addr s'"
  using assms
proof (induction rule: walk_rule)
  case (up vis dir s0 files s1 tmp s2 r s')
  show ?case using up(8) step_alias(1,2) [OF up(2) up(4)] by auto
next
  case (found vis dir s0 files s1 p s2)
  show ?case using step_alias(1,2) [OF found(2) found(4)] by auto
next
  case (cb_error vis dir s0 files s1 e s2)
  show ?case using step_alias(1,2) [OF cb_error(2) cb_error(4)] by auto
next
  case (not_string vis dir s0 files s1 s2)
  show ?case using step_alias(1,2) [OF not_string(2) not_string(4)] by auto
next
  case (at_root vis dir s0 files s1 tmp s2)
  show ?case using step_alias(1,2) [OF at_root(2) at_root(4)] by auto
next
  case (readdir_error vis dir s0 e s1)
  show ?case using fetch_files_cache(1,2) [OF readdir_error(2)] by auto
next
  case (skipped vis dir s0 files s1)
  show ?case using fetch_files_cache(1,2) [OF skipped(2)] by auto
next
  case (visited vis dir s0)
  show ?case by simp
qed

text \<open>A walk leaves alone the listing of any directory it does not pass through.\<close>

lemma walk_frame:
  assumes "walk fs cwd callback cacheKey vis dir s0 = (r, s')"
  shows "cache_ok s0 \<longrightarrow> pmeasure dir < pmeasure D \<longrightarrow>
           getCachedReaddir s' D = None
           \<or> (getCachedReaddir s' D = getCachedReaddir s0 D
              \<and> (\<forall>a. getCachedReaddir s0 D = Some a \<longrightarrow> heap s' a = heap s0 a))"
  using assms
proof (induction rule: walk_rule)
  case (up vis dir s0 files s1 tmp s2 r s')
  show ?case
  proof (intro impI)
    assume ok: "cache_ok s0" and lt: "pmeasure dir < pmeasure D"
    then have ne: "D \<noteq> dir" by auto
    have lt': "pmeasure (dirname dir) < pmeasure D"
      using dirname_decreases [OF up(6)] lt by simp
    have ok2: "cache_ok s2" using step_alias(1) [OF up(2) up(4) ok] .
    note one = step_frame [OF up(2) up(4) ok ne]
    note rest = up(8) [rule_format, OF ok2 lt']
    show "getCachedReaddir s' D = None
           \<or> (getCachedReaddir s' D = getCachedReaddir s0 D
              \<and> (\<forall>a. getCachedReaddir s0 D = Some a \<longrightarrow> heap s' a = heap s0 a))"
      using one rest by auto
  qed
next
  case (found vis dir s0 files s1 p s2)
  show ?case
  proof (intro impI)
    assume ok: "cache_ok s0" and lt: "pmeasure dir < pmeasure D"
    then have ne: "D \<noteq> dir" by auto
    show "getCachedReaddir (s2\<lparr>pathCache := map_set (pathCache s2) cacheKey (Some (resolve cwd dir p))\<rparr>) D = None
           \<or> (getCachedReaddir (s2\<lparr>pathCache := map_set (pathCache s2) cacheKey (Some (resolve cwd dir p))\<rparr>) D = getCachedReaddir s0 D
              \<and> (\<forall>a. getCachedReaddir s0 D = Some a \<longrightarrow> heap (s2\<lparr>pathCache := map_set (pathCache s2) cacheKey (Some (resolve cwd dir p))\<rparr>) a = heap s0 a))"
      using step_frame [OF found(2) found(4) ok ne] by simp
  qed
next
  case (cb_error vis dir s0 files s1 e s2)
  show ?case using step_frame [OF cb_error(2) cb_error(4), of D] by (cases "D = dir") auto
next
  case (not_string vis dir s0 files s1 s2)
  show ?case using step_frame [OF not_string(2) not_string(4), of D] by (cases "D = dir") auto
next
  case (at_root vis dir s0 files s1 tmp s2)
  show ?case using step_frame [OF at_root(2) at_root(4), of D] by (cases "D = dir") auto
next
  case (readdir_error vis dir s0 e s1)
  show ?case using fetch_only_frame [OF readdir_error(2), of D] by (cases "D = dir") auto
next
  case (skipped vis dir s0 files s1)
  show ?case using fetch_only_frame [OF skipped(2), of D] by (cases "D = dir") auto
next
  case (visited vis dir s0)
  show ?case by simp
qed

lemma walk_log_dirs:
  assumes "walk fs cwd callback cacheKey vis dir s0 = (r, s')"
  shows "\<forall>D a names res. Invoke D a names res \<in> set (new_events s0 s') \<longrightarrow>
           pmeasure D \<le> pmeasure dir"
  using assms
proof (induction rule: walk_rule)
  case (up vis dir s0 files s1 tmp s2 r s')
  obtain ev where ev: "trace s' = trace s2 @ ev" using walk_extends [OF up(7)] by blast
  obtain rd where rd: "rd = [] \<or> rd = [ReaddirSync dir]"
      "trace s2 = trace s0 @ Iteration dir # rd @ [Invoke dir files (heap s1 files) (Inr tmp)]"
    using step_log [OF up(2) up(4)] by blast
  have ne: "new_events s0 s' = Iteration dir # rd @ [Invoke dir files (heap s1 files) (Inr tmp)] @ ev"
    using ev rd(2) by simp
  have ne2: "new_events s2 s' = ev" using ev by simp
  have "pmeasure (dirname dir) < pmeasure dir" using dirname_decreases [OF up(6)] .
  then show ?case using up(8) rd(1) unfolding ne ne2 by fastforce
next
  case (found vis dir s0 files s1 p s2)
  show ?case using step_log [OF found(2) found(4)] by auto
next
  case (cb_error vis dir s0 files s1 e s2)
  show ?case using step_log [OF cb_error(2) cb_error(4)] by auto
next
  case (not_string vis dir s0 files s1 s2)
  show ?case using step_log [OF not_string(2) not_string(4)] by auto
next
  case (at_root vis dir s0 files s1 tmp s2)
  show ?case using step_log [OF at_root(2) at_root(4)] by auto
next
  case (readdir_error vis dir s0 e s1)
  show ?case using fetch_files_log [OF readdir_error(2)] by auto
next
  case (skipped vis dir s0 files s1)
  show ?case using fetch_files_log [OF skipped(2)] by auto
next
  case (visited vis dir s0)
  show ?case by simp
qed

text \<open>
  After a walk, the cache entry of a directory at which the callback was invoked is still
  the array the callback was given, with the content the callback left, unless the entry
  has been evicted since.
\<close>

lemma walk_alias:
  assumes "walk fs cwd callback cacheKey vis dir s0 = (r, s')"
  shows "cache_ok s0 \<longrightarrow>
         (\<forall>D a names res. Invoke D a names res \<in> set (new_events s0 s') \<longrightarrow>
            getCachedReaddir s' D = None
            \<or> (getCachedReaddir s' D = Some a \<and> heap s' a = snd (cb_apply callback D names)))"
  using assms
proof (induction rule: walk_rule)
  case (up vis dir s0 files s1 tmp s2 r s')
  show ?case
  proof (intro impI allI)
    fix D a names res
    assume ok: "cache_ok s0" and ev: "Invoke D a names res \<in> set (new_events s0 s')"
    obtain tl where tl: "trace s' = trace s2 @ tl" using walk_extends [OF up(7)] by blast
    obtain rd where rd: "rd = [] \<or> rd = [ReaddirSync dir]"
        "trace s2 = trace s0 @ Iteration dir # rd @ [Invoke dir files (heap s1 files) (Inr tmp)]"
      using step_log [OF up(2) up(4)] by blast
    have ne: "new_events s0 s' = Iteration dir # rd @ [Invoke dir files (heap s1 files) (Inr tmp)] @ tl"
      using tl rd(2) by simp
    have ne2: "new_events s2 s' = tl" using tl by simp
    note al = step_alias [OF up(2) up(4) ok]
    from ev rd(1) consider
        (head) "D = dir" "a = files" "names = heap s1 files"
      | (tail) "Invoke D a names res \<in> set tl"
      unfolding ne by auto
    then show "getCachedReaddir s' D = None
            \<or> (getCachedReaddir s' D = Some a \<and> heap s' a = snd (cb_apply callback D names))"
    proof cases
      case head
      have lt: "pmeasure (dirname dir) < pmeasure D"
        using dirname_decreases [OF up(6)] head(1) by simp
      show ?thesis
        using walk_frame [OF up(7), of D] al(1) lt al(3) al(4) head by auto
    next
      case tail
      then show ?thesis using up(8) al(1) unfolding ne2 by blast
    qed
  qed
next
  case (found vis dir s0 files s1 p s2)
  show ?case
    using step_log [OF found(2) found(4)] step_alias(3,4) [OF found(2) found(4)] by auto
next
  case (cb_error vis dir s0 files s1 e s2)
  show ?case
    using step_log [OF cb_error(2) cb_error(4)] step_alias(3,4) [OF cb_error(2) cb_error(4)] by auto
next
  case (not_string vis dir s0 files s1 s2)
  show ?case
    using step_log [OF not_string(2) not_string(4)] step_alias(3,4) [OF not_string(2) not_string(4)]
    by auto
next
  case (at_root vis dir s0 files s1 tmp s2)
  show ?case
    using step_log [OF at_root(2) at_root(4)] step_alias(3,4) [OF at_root(2) at_root(4)] by auto
next
  case (readdir_error vis dir s0 e s1)
  show ?case using fetch_files_log [OF readdir_error(2)] by auto
next
  case (skipped vis dir s0 files s1)
  show ?case using fetch_files_log [OF skipped(2)] by auto
next
  case (visited vis dir s0)
  show ?case by simp
qed

text \<open>
  In a walk, the callback invoked at \<open>D\<close> is given the array that the cache held for \<open>D\<close>
  when the walk began, with the content it had then, unless the walk read the listing of
  \<open>D\<close> anew.
\<close>

lemma walk_later:
  assumes "walk fs cwd callback cacheKey vis dir s0 = (r, s')"
  shows "cache_ok s0 \<longrightarrow>
         (\<forall>a names res. Invoke D a names res \<in> set (new_events s0 s') \<longrightarrow>
            ReaddirSync D \<in> set (new_events s0 s')
            \<or> (getCachedReaddir s0 D = Some a \<and> names = heap s0 a))"
  using assms
proof (induction rule: walk_rule)
  case (up vis dir s0 files s1 tmp s2 r s')
  show ?case
  proof (intro impI allI)
    fix a names res
    assume ok: "cache_ok s0" and ev: "Invoke D a names res \<in> set (new_events s0 s')"
    obtain tl where tl: "trace s' = trace s2 @ tl" using walk_extends [OF up(7)] by blast
    obtain rd where rd:
        "trace s2 = trace s0 @ Iteration dir # rd @ [Invoke dir files (heap s1 files) (Inr tmp)]"
        "rd = [] \<and> getCachedReaddir s0 dir = Some files \<and> heap s1 = heap s0
         \<or> rd = [ReaddirSync dir]"
      using step_head [OF up(2) up(4)] by blast
    have ne: "new_events s0 s' = Iteration dir # rd @ [Invoke dir files (heap s1 files) (Inr tmp)] @ tl"
      using tl rd(1) by simp
    have ne2: "new_events s2 s' = tl" using tl by simp
    have ok2: "cache_ok s2" using step_alias(1) [OF up(2) up(4) ok] .
    from ev rd(2) consider
        (head) "D = dir" "a = files" "names = heap s1 files"
      | (tail) "Invoke D a names res \<in> set tl"
      unfolding ne by auto
    then show "ReaddirSync D \<in> set (new_events s0 s')
            \<or> (getCachedReaddir s0 D = Some a \<and> names = heap s0 a)"
    proof cases
      case head
      then show ?thesis using rd(2) unfolding ne by auto
    next
      case tail
      then have "pmeasure D \<le> pmeasure (dirname dir)"
        using walk_log_dirs [OF up(7)] unfolding ne2 by blast
      then have neq: "D \<noteq> dir" using dirname_decreases [OF up(6)] by auto
      from tail have "ReaddirSync D \<in> set tl \<or> (getCachedReaddir s2 D = Some a \<and> names = heap s2 a)"
        using up(8) ok2 unfolding ne2 by blast
      then show ?thesis
      proof
        assume "ReaddirSync D \<in> set tl"
        then show ?thesis unfolding ne by simp
      next
        assume s2D: "getCachedReaddir s2 D = Some a \<and> names = heap s2 a"
        then show ?thesis using step_frame [OF up(2) up(4) ok neq] by auto
      qed
    qed
  qed
next
  case (found vis dir s0 files s1 p s2)
  show ?case using step_head [OF found(2) found(4)] by auto
next
  case (cb_error vis dir s0 files s1 e s2)
  show ?case using step_head [OF cb_error(2) cb_error(4)] by auto
next
  case (not_string vis dir s0 files s1 s2)
  show ?case using step_head [OF not_string(2) not_string(4)] by auto
next
  case (at_root vis dir s0 files s1 tmp s2)
  show ?case using step_head [OF at_root(2) at_root(4)] by auto
next
  case (readdir_error vis dir s0 e s1)
  show ?case using fetch_files_log [OF readdir_error(2)] by auto
next
  case (skipped vis dir s0 files s1)
  show ?case using fetch_files_log [OF skipped(2)] by auto
next
  case (visited vis dir s0)
  show ?case by simp
qed

lemma fetch_stat_cache:
  assumes "fetch_stat fs dir s = (sr, s1)"
  shows "cache_ok s1 = cache_ok s" and "getCachedReaddir s1 D = getCachedReaddir s D"
    and "heap s1 = heap s"
  using fetch_stat_frame [OF assms] by (simp_all add: cache_ok_def getCachedReaddir_def)

lemma after_walk_simps:
  "getCachedReaddir (case r of Inr None \<Rightarrow> s2\<lparr>pathCache := m\<rparr> | _ \<Rightarrow> s2) D = getCachedReaddir s2 D"
  "heap (case r of Inr None \<Rightarrow> s2\<lparr>pathCache := m\<rparr> | _ \<Rightarrow> s2) = heap s2"
  "cache_ok (case r of Inr None \<Rightarrow> s2\<lparr>pathCache := m\<rparr> | _ \<Rightarrow> s2) = cache_ok s2"
  by (auto split: sum.splits option.splits)

text \<open>A call that invoked the callback went through the walk.\<close>

lemma locateBlocking_walked:
  assumes "locateBlocking fs cwd start callback s = (r, s')"
    and "Invoke D files names res \<in> set (new_events s s')"
  obtains stats s1 s2 st where
      "fetch_stat fs (resolve cwd ''.'' start) s = (Inr stats, s1)"
      "walk fs cwd callback (cacheKey_of cwd start callback) {}
         (if \<not> stats then dirname (resolve cwd ''.'' start) else resolve cwd ''.'' start) s1 = (r, s2)"
      "new_events s s' = st @ new_events s1 s2"
      "st = [] \<or> st = [StatSync (resolve cwd ''.'' start)]"
      "s' = (case r of
               Inr None \<Rightarrow> s2\<lparr>pathCache := map_set (pathCache s2) (cacheKey_of cwd start callback) None\<rparr>
             | _ \<Rightarrow> s2)"
  using assms(1)
proof (cases rule: locateBlocking_cases)
  case (hit x)
  then show ?thesis using assms(2) by (simp add: new_events_def)
next
  case (stat_error e)
  then show ?thesis using assms(2) fetch_stat_log [OF stat_error(2)] by auto
next
  case (walked stats s1 s2)
  obtain st where st: "st = [] \<or> st = [StatSync (resolve cwd ''.'' start)]" "trace s1 = trace s @ st"
    using fetch_stat_log [OF walked(2)] by blast
  obtain ev where ev: "trace s2 = trace s1 @ ev" using walk_extends [OF walked(3)] by blast
  have "trace s' = trace s2" using walked(4) by (simp add: trace_after_walk)
  then have "new_events s s' = st @ new_events s1 s2" using st(2) ev by simp
  then show ?thesis using that [OF walked(2) walked(3) _ st(1) walked(4)] by blast
qed

lemma locateBlocking_cache_ok:
  assumes "locateBlocking fs cwd start callback s = (r, s')" and "cache_ok s"
  shows "cache_ok s'"
  using assms(1)
proof (cases rule: locateBlocking_cases)
  case (hit x)
  then show ?thesis using assms(2) by simp
next
  case (stat_error e)
  then show ?thesis using assms(2) fetch_stat_cache(1) [OF stat_error(2)] by simp
next
  case (walked stats s1 s2)
  have "cache_ok s1" using assms(2) fetch_stat_cache(1) [OF walked(2)] by simp
  then have "cache_ok s2" using walk_cache_ok [OF walked(3)] by simp
  then show ?thesis using walked(4) by (simp add: after_walk_simps)
qed

lemma run_calls_cache_ok: "cache_ok s \<Longrightarrow> cache_ok (run_calls cs s)"
proof (induction cs arbitrary: s)
  case Nil
  then show ?case by simp
next
  case (Cons c cs)
  obtain fs cwd start callback where c: "c = (fs, cwd, start, callback)" by (cases c) auto
  have "cache_ok (snd (locateBlocking fs cwd start callback s))"
    using locateBlocking_cache_ok [OF prod.collapse [symmetric] Cons.prems] .
  then show ?case using Cons.IH c by simp
qed

lemma cache_ok_init: "cache_ok init_state"
  by (simp add: cache_ok_def init_state_def)

lemma locateBlocking_alias:
  assumes "locateBlocking fs cwd start callback s = (r, s')" and "cache_ok s"
    and "Invoke D files names res \<in> set (new_events s s')"
  shows "getCachedReaddir s' D = None
         \<or> (getCachedReaddir s' D = Some files \<and> heap s' files = snd (cb_apply callback D names))"
proof -
  from assms(1,3) obtain stats s1 s2 st where
      fs: "fetch_stat fs (resolve cwd ''.'' start) s = (Inr stats, s1)"
      and w: "walk fs cwd callback (cacheKey_of cwd start callback) {}
         (if \<not> stats then dirname (resolve cwd ''.'' start) else resolve cwd ''.'' start) s1 = (r, s2)"
      and ne: "new_events s s' = st @ new_events s1 s2"
      and st: "st = [] \<or> st = [StatSync (resolve cwd ''.'' start)]"
      and s': "s' = (case r of
               Inr None \<Rightarrow> s2\<lparr>pathCache := map_set (pathCache s2) (cacheKey_of cwd start callback) None\<rparr>
             | _ \<Rightarrow> s2)"
    by (rule locateBlocking_walked)
  have ok1: "cache_ok s1" using assms(2) fetch_stat_cache(1) [OF fs] by simp
  have "Invoke D files names res \<in> set (new_events s1 s2)" using assms(3) ne st by auto
  then have "getCachedReaddir s2 D = None
         \<or> (getCachedReaddir s2 D = Some files \<and> heap s2 files = snd (cb_apply callback D names))"
    using walk_alias [OF w] ok1 by blast
  then show ?thesis unfolding s' by (simp add: after_walk_simps)
qed

lemma locateBlocking_later:
  assumes "locateBlocking fs cwd start callback s = (r, s')" and "cache_ok s"
    and "Invoke D files names res \<in> set (new_events s s')"
  shows "ReaddirSync D \<in> set (new_events s s')
         \<or> (getCachedReaddir s D = Some files \<and> names = heap s files)"
proof -
  from assms(1,3) obtain stats s1 s2 st where
      fs: "fetch_stat fs (resolve cwd ''.'' start) s = (Inr stats, s1)"
      and w: "walk fs cwd callback (cacheKey_of cwd start callback) {}
         (if \<not> stats then dirname (resolve cwd ''.'' start) else resolve cwd ''.'' start) s1 = (r, s2)"
      and ne: "new_events s s' = st @ new_events s1 s2"
      and st: "st = [] \<or> st = [StatSync (resolve cwd ''.'' start)]"
    by (rule locateBlocking_walked)
  have ok1: "cache_ok s1" using assms(2) fetch_stat_cache(1) [OF fs] by simp
  have "Invoke D files names res \<in> set (new_events s1 s2)" using assms(3) ne st by auto
  then have "ReaddirSync D \<in> set (new_events s1 s2)
         \<or> (getCachedReaddir s1 D = Some files \<and> names = heap s1 files)"
    using walk_later [OF w] ok1 by blast
  then show ?thesis
    using ne fetch_stat_cache(2,3) [OF fs] by auto
qed

subsection \<open>The listing of a directory across later calls\<close>

lemma writes_nothing_at_simps [simp]:
  "writes_nothing_at D callback [] = True"
  "writes_nothing_at D callback (Iteration d # ev) = writes_nothing_at D callback ev"
  "writes_nothing_at D callback (ReaddirSync d # ev) = writes_nothing_at D callback ev"
  "writes_nothing_at D callback (StatSync d # ev) = writes_nothing_at D callback ev"
  "writes_nothing_at D callback (Invoke d a names res # ev) =
     ((d = D \<longrightarrow> snd (cb_apply callback d names) = names) \<and> writes_nothing_at D callback ev)"
  "writes_nothing_at D callback (ev @ ev') =
     (writes_nothing_at D callback ev \<and> writes_nothing_at D callback ev')"
  by (simp_all add: writes_nothing_at_def)

lemma new_events_trans:
  "trace s1 = trace s0 @ e1 \<Longrightarrow> trace s2 = trace s1 @ e2 \<Longrightarrow>
   new_events s0 s2 = new_events s0 s1 @ new_events s1 s2"
  by (simp add: new_events_def)

lemma locateBlocking_extends:
  assumes "locateBlocking fs cwd start callback s = (r, s')"
  shows "\<exists>ev. trace s' = trace s @ ev"
  using assms
proof (cases rule: locateBlocking_cases)
  case (hit x)
  then show ?thesis by simp
next
  case (stat_error e)
  then show ?thesis using fetch_stat_log [OF stat_error(2)] by auto
next
  case (walked stats s1 s2)
  then show ?thesis
    using fetch_stat_log [OF walked(2)] walk_extends [OF walked(3)]
    by (auto simp: trace_after_walk)
qed

lemma run_calls_extends: "\<exists>ev. trace (run_calls cs s) = trace s @ ev"
proof (induction cs arbitrary: s)
  case Nil
  then show ?case by simp
next
  case (Cons c cs)
  obtain fs cwd start callback where c: "c = (fs, cwd, start, callback)" by (cases c) auto
  obtain e1 where e1: "trace (snd (locateBlocking fs cwd start callback s)) = trace s @ e1"
    using locateBlocking_extends [OF prod.collapse [symmetric]] by blast
  obtain e2 where "trace (run_calls cs (snd (locateBlocking fs cwd start callback s)))
                   = trace (snd (locateBlocking fs cwd start callback s)) @ e2"
    using Cons.IH by blast
  then show ?case using e1 c by simp
qed

text \<open>
  One pass through the loop body, callback included, keeps the entry of \<open>D\<close> and the
  content of its array, if it neither read the listing of \<open>D\<close> anew nor wrote to the list.
\<close>

lemma step_keeps:
  assumes ff: "fetch_files fs dir (log_event (Iteration dir) s0) = (Inr files, s1)"
    and inv: "invoke callback dir files s1 = (tmp, s2)"
    and ok: "cache_ok s0"
    and P: "getCachedReaddir s0 D = None \<or> (getCachedReaddir s0 D = Some a \<and> heap s0 a = X)"
    and wn: "writes_nothing_at D callback (new_events s0 s2)"
    and ne: "ReaddirSync D \<notin> set (new_events s0 s2)"
  shows "getCachedReaddir s2 D = None \<or> (getCachedReaddir s2 D = Some a \<and> heap s2 a = X)"
proof (cases "dir = D")
  case False
  then have "D \<noteq> dir" by simp
  from step_frame [OF ff inv ok this] P show ?thesis by auto
next
  case True
  obtain rd where rd:
      "trace s2 = trace s0 @ Iteration dir # rd @ [Invoke dir files (heap s1 files) tmp]"
      "rd = [] \<and> getCachedReaddir s0 dir = Some files \<and> heap s1 = heap s0
       \<or> rd = [ReaddirSync dir]"
    using step_head [OF ff inv] by blast
  have nev: "new_events s0 s2 = Iteration dir # rd @ [Invoke dir files (heap s1 files) tmp]"
    using rd(1) by simp
  have hit: "getCachedReaddir s0 dir = Some files \<and> heap s1 = heap s0"
    using rd(2) ne True unfolding nev by auto
  then have a: "a = files" "heap s0 files = X" using P True by auto
  have "snd (cb_apply callback dir (heap s1 files)) = heap s1 files"
    using wn True unfolding nev by simp
  then have "heap s2 files = heap s1 files"
    using step_alias(4) [OF ff inv ok] by simp
  then show ?thesis
    using step_alias(3) [OF ff inv ok] hit a True by simp
qed

lemma fetch_keeps:
  assumes ff: "fetch_files fs dir (log_event (Iteration dir) s0) = (fr, s1)"
    and ok: "cache_ok s0"
    and P: "getCachedReaddir s0 D = None \<or> (getCachedReaddir s0 D = Some a \<and> heap s0 a = X)"
    and ne: "ReaddirSync D \<notin> set (new_events s0 s1)"
  shows "getCachedReaddir s1 D = None \<or> (getCachedReaddir s1 D = Some a \<and> heap s1 a = X)"
proof (cases "dir = D")
  case False
  then have "D \<noteq> dir" by simp
  from fetch_only_frame [OF ff ok this] P show ?thesis by auto
next
  case True
  show ?thesis
  proof (cases "getCachedReaddir s0 dir")
    case None
    then have "trace s1 = trace s0 @ [Iteration dir, ReaddirSync dir]"
      using fetch_files_frame [OF ff] by simp
    then show ?thesis using ne True by simp
  next
    case (Some b)
    then have "s1 = log_event (Iteration dir) s0" using ff by (simp add: fetch_files_def)
    then show ?thesis using P by simp
  qed
qed

lemma walk_keeps_listing:
  assumes "walk fs cwd callback cacheKey vis dir s0 = (r, s')"
  shows "cache_ok s0 \<longrightarrow>
         (getCachedReaddir s0 D = None \<or> (getCachedReaddir s0 D = Some a \<and> heap s0 a = X)) \<longrightarrow>
         writes_nothing_at D callback (new_events s0 s') \<longrightarrow>
         ReaddirSync D \<notin> set (new_events s0 s') \<longrightarrow>
         (getCachedReaddir s' D = None \<or> (getCachedReaddir s' D = Some a \<and> heap s' a = X))"
  using assms
proof (induction rule: walk_rule)
  case (up vis dir s0 files s1 tmp s2 r s')
  show ?case
  proof (intro impI)
    assume ok: "cache_ok s0"
      and P: "getCachedReaddir s0 D = None \<or> (getCachedReaddir s0 D = Some a \<and> heap s0 a = X)"
      and wn: "writes_nothing_at D callback (new_events s0 s')"
      and ne: "ReaddirSync D \<notin> set (new_events s0 s')"
    obtain e1 where e1: "trace s2 = trace s0 @ e1" using step_log [OF up(2) up(4)] by blast
    obtain e2 where e2: "trace s' = trace s2 @ e2" using walk_extends [OF up(7)] by blast
    note split = new_events_trans [OF e1 e2]
    have ok2: "cache_ok s2" using step_alias(1) [OF up(2) up(4) ok] .
    have P2: "getCachedReaddir s2 D = None \<or> (getCachedReaddir s2 D = Some a \<and> heap s2 a = X)"
      using step_keeps [OF up(2) up(4) ok P] wn ne unfolding split by simp
    show "getCachedReaddir s' D = None \<or> (getCachedReaddir s' D = Some a \<and> heap s' a = X)"
      using up(8) ok2 P2 wn ne unfolding split by simp
  qed
next
  case (found vis dir s0 files s1 p s2)
  show ?case using step_keeps [OF found(2) found(4), of D a X] step_log [OF found(2) found(4)]
    by (auto simp: new_events_def)
next
  case (cb_error vis dir s0 files s1 e s2)
  show ?case using step_keeps [OF cb_error(2) cb_error(4), of D a X] by blast
next
  case (not_string vis dir s0 files s1 s2)
  show ?case using step_keeps [OF not_string(2) not_string(4), of D a X] by blast
next
  case (at_root vis dir s0 files s1 tmp s2)
  show ?case using step_keeps [OF at_root(2) at_root(4), of D a X] by blast
next
  case (readdir_error vis dir s0 e s1)
  show ?case using fetch_keeps [OF readdir_error(2), of D a X] by blast
next
  case (skipped vis dir s0 files s1)
  show ?case using fetch_keeps [OF skipped(2), of D a X] by blast
next
  case (visited vis dir s0)
  show ?case by simp
qed


lemma locateBlocking_keeps_listing:
  assumes call: "locateBlocking fs cwd start callback s = (r, s')"
    and ok: "cache_ok s"
    and P: "getCachedReaddir s D = None \<or> (getCachedReaddir s D = Some a \<and> heap s a = X)"
    and wn: "writes_nothing_at D callback (new_events s s')"
    and ne: "ReaddirSync D \<notin> set (new_events s s')"
  shows "getCachedReaddir s' D = None \<or> (getCachedReaddir s' D = Some a \<and> heap s' a = X)"
  using call
proof (cases rule: locateBlocking_cases)
  case (hit x)
  then show ?thesis using P by simp
next
  case (stat_error e)
  then show ?thesis using P fetch_stat_cache(2,3) [OF stat_error(2)] by simp
next
  case (walked stats s1 s2)
  obtain st where st: "trace s1 = trace s @ st" using fetch_stat_log [OF walked(2)] by blast
  obtain ev where ev: "trace s2 = trace s1 @ ev" using walk_extends [OF walked(3)] by blast
  have "trace s' = trace s2" using walked(4) by (simp add: trace_after_walk)
  then have "new_events s s' = st @ new_events s1 s2" using st ev by simp
  then have wn1: "writes_nothing_at D callback (new_events s1 s2)"
    and ne1: "ReaddirSync D \<notin> set (new_events s1 s2)"
    using wn ne by simp_all
  have ok1: "cache_ok s1" using ok fetch_stat_cache(1) [OF walked(2)] by simp
  have P1: "getCachedReaddir s1 D = None \<or> (getCachedReaddir s1 D = Some a \<and> heap s1 a = X)"
    using P fetch_stat_cache(2,3) [OF walked(2)] by simp
  have "getCachedReaddir s2 D = None \<or> (getCachedReaddir s2 D = Some a \<and> heap s2 a = X)"
    using walk_keeps_listing [OF walked(3)] ok1 P1 wn1 ne1 by blast
  then show ?thesis unfolding walked(4) by (simp add: after_walk_simps)
qed

lemma run_calls_keeps_listing:
  "cache_ok s \<Longrightarrow>
   getCachedReaddir s D = None \<or> (getCachedReaddir s D = Some a \<and> heap s a = X) \<Longrightarrow>
   listing_untouched D cs s \<Longrightarrow>
   ReaddirSync D \<notin> set (new_events s (run_calls cs s)) \<Longrightarrow>
   getCachedReaddir (run_calls cs s) D = None
   \<or> (getCachedReaddir (run_calls cs s) D = Some a \<and> heap (run_calls cs s) a = X)"
proof (induction cs arbitrary: s)
  case Nil
  then show ?case by simp
next
  case (Cons c cs)
  obtain fs cwd start callback where c: "c = (fs, cwd, start, callback)" by (cases c) auto
  define t where "t = snd (locateBlocking fs cwd start callback s)"
  have call: "locateBlocking fs cwd start callback s = (fst (locateBlocking fs cwd start callback s), t)"
    by (simp add: t_def)
  obtain e1 where e1: "trace t = trace s @ e1"
    using locateBlocking_extends [OF call] by blast
  obtain e2 where e2: "trace (run_calls cs t) = trace t @ e2"
    using run_calls_extends by blast
  have run: "run_calls (c # cs) s = run_calls cs t" by (simp add: c t_def)
  have split: "new_events s (run_calls cs t) = new_events s t @ new_events t (run_calls cs t)"
    by (rule new_events_trans [OF e1 e2])
  have wn: "writes_nothing_at D callback (new_events s t)" and un: "listing_untouched D cs t"
    using Cons.prems(3) by (simp_all add: c t_def)
  have ne: "ReaddirSync D \<notin> set (new_events s t)"
    and ne': "ReaddirSync D \<notin> set (new_events t (run_calls cs t))"
    using Cons.prems(4) unfolding run split by simp_all
  have okt: "cache_ok t" by (rule locateBlocking_cache_ok [OF call Cons.prems(1)])
  have Pt: "getCachedReaddir t D = None \<or> (getCachedReaddir t D = Some a \<and> heap t a = X)"
    by (rule locateBlocking_keeps_listing [OF call Cons.prems(1,2) wn ne])
  show ?case unfolding run by (rule Cons.IH [OF okt Pt un ne'])
qed

text \<open>The states of the scenario, evaluated call by call.\<close>

lemma ghost_state_eval:
  "ghost_state =
     \<lparr>pathCache = [(''/a:(dir, names) => { names.push(name) }'', None)],
        cacheKeys = [''/a'', ''/a'', ''/''], statCache = [(''/a'', True)],
        readdirCache = [(''/a'', 0), (''/'', Suc 0)],
        heap = (\<lambda>_. [])(0 := [''node_modules'', ''ghost''], Suc 0 := [''a'', ''ghost'']),
        next_addr = Suc (Suc 0),
        trace = [StatSync ''/a'', Iteration ''/a'', ReaddirSync ''/a'',
           Invoke ''/a'' 0 [''node_modules''] (Inr Undefined),
           Iteration ''/'', ReaddirSync ''/'',
           Invoke ''/'' (Suc 0) [''a''] (Inr Undefined)]\<rparr>"
  by (simp add: escalade_defs fs_project_def cb_push_def ghost_state_def)

lemma ghost_between_first:
  "locateBlocking fs_project ''/'' ''/a/node_modules/pkg'' (cb_push ''other'')
     (\<lparr>pathCache = [(''/a:(dir, names) => { names.push(name) }'', None)],
        cacheKeys = [''/a'', ''/a'', ''/''], statCache = [(''/a'', True)],
        readdirCache = [(''/a'', 0), (''/'', Suc 0)],
        heap = (\<lambda>_. [])(0 := [''node_modules'', ''ghost''], Suc 0 := [''a'', ''ghost'']),
        next_addr = Suc (Suc 0),
        trace = [StatSync ''/a'', Iteration ''/a'', ReaddirSync ''/a'',
           Invoke ''/a'' 0 [''node_modules''] (Inr Undefined),
           Iteration ''/'', ReaddirSync ''/'',
           Invoke ''/'' (Suc 0) [''a''] (Inr Undefined)]\<rparr>) =
     (Inr None,
      \<lparr>pathCache =
         [(''/a:(dir, names) => { names.push(name) }'', None),
          (''/a/node_modules/pkg:(dir, names) => { names.push(name) }'', None)],
        cacheKeys = [''/a'', ''/a'', ''/'', ''/a/node_modules/pkg'', ''/a/node_modules/pkg''],
        statCache = [(''/a'', True), (''/a/node_modules/pkg'', True)],
        readdirCache = [(''/a'', 0), (''/'', Suc 0), (''/a/node_modules/pkg'', Suc (Suc 0))],
        heap = (\<lambda>_. [])(0 := [''node_modules'', ''ghost''], Suc 0 := [''a'', ''ghost''],
                 Suc (Suc 0) := []),
        next_addr = Suc (Suc (Suc 0)),
        trace = [StatSync ''/a'', Iteration ''/a'', ReaddirSync ''/a'',
            Invoke ''/a'' 0 [''node_modules''] (Inr Undefined),
            Iteration ''/'', ReaddirSync ''/'',
            Invoke ''/'' (Suc 0) [''a''] (Inr Undefined),
            StatSync ''/a/node_modules/pkg'',
            Iteration ''/a/node_modules/pkg'',
            ReaddirSync ''/a/node_modules/pkg'']\<rparr>)"
  by (simp add: escalade_defs fs_project_def cb_push_def)

lemma ghost_between_second:
  "locateBlocking fs_project ''/'' ''/a'' cb_never
     (\<lparr>pathCache =
         [(''/a:(dir, names) => { names.push(name) }'', None),
          (''/a/node_modules/pkg:(dir, names) => { names.push(name) }'', None)],
        cacheKeys = [''/a'', ''/a'', ''/'', ''/a/node_modules/pkg'', ''/a/node_modules/pkg''],
        statCache = [(''/a'', True), (''/a/node_modules/pkg'', True)],
        readdirCache = [(''/a'', 0), (''/'', Suc 0), (''/a/node_modules/pkg'', Suc (Suc 0))],
        heap = (\<lambda>_. [])(0 := [''node_modules'', ''ghost''], Suc 0 := [''a'', ''ghost''],
                 Suc (Suc 0) := []),
        next_addr = Suc (Suc (Suc 0)),
        trace = [StatSync ''/a'', Iteration ''/a'', ReaddirSync ''/a'',
            Invoke ''/a'' 0 [''node_modules''] (Inr Undefined),
            Iteration ''/'', ReaddirSync ''/'',
            Invoke ''/'' (Suc 0) [''a''] (Inr Undefined),
            StatSync ''/a/node_modules/pkg'',
            Iteration ''/a/node_modules/pkg'',
            ReaddirSync ''/a/node_modules/pkg'']\<rparr>) =
     (Inr None,
      \<lparr>pathCache =
         [(''/a:(dir, names) => { names.push(name) }'', None),
          (''/a/node_modules/pkg:(dir, names) => { names.push(name) }'', None),
          (''/a:() => false'', None)],
        cacheKeys = [''/a'', ''/a'', ''/'', ''/a/node_modules/pkg'', ''/a/node_modules/pkg''],
        statCache = [(''/a'', True), (''/a/node_modules/pkg'', True)],
        readdirCache = [(''/a'', 0), (''/'', Suc 0), (''/a/node_modules/pkg'', Suc (Suc 0))],
        heap = (\<lambda>_. [])(0 := [''node_modules'', ''ghost''], Suc 0 := [''a'', ''ghost''],
                 Suc (Suc 0) := []),
        next_addr = Suc (Suc (Suc 0)),
        trace = [StatSync ''/a'', Iteration ''/a'', ReaddirSync ''/a'',
            Invoke ''/a'' 0 [''node_modules''] (Inr Undefined),
            Iteration ''/'', ReaddirSync ''/'',
            Invoke ''/'' (Suc 0) [''a''] (Inr Undefined),
            StatSync ''/a/node_modules/pkg'',
            Iteration ''/a/node_modules/pkg'',
            ReaddirSync ''/a/node_modules/pkg'', Iteration ''/a'',
            Invoke ''/a'' 0 [''node_modules'', ''ghost''] (Inr (Bool False)),
            Iteration ''/'',
            Invoke ''/'' (Suc 0) [''a'', ''ghost''] (Inr (Bool False))]\<rparr>)"
  by (simp add: escalade_defs fs_project_def cb_never_def)

lemma ghost_between_eval:
  "run_calls ghost_between ghost_state =
     \<lparr>pathCache =
         [(''/a:(dir, names) => { names.push(name) }'', None),
          (''/a/node_modules/pkg:(dir, names) => { names.push(name) }'', None),
          (''/a:() => false'', None)],
        cacheKeys = [''/a'', ''/a'', ''/'', ''/a/node_modules/pkg'', ''/a/node_modules/pkg''],
        statCache = [(''/a'', True), (''/a/node_modules/pkg'', True)],
        readdirCache = [(''/a'', 0), (''/'', Suc 0), (''/a/node_modules/pkg'', Suc (Suc 0))],
        heap = (\<lambda>_. [])(0 := [''node_modules'', ''ghost''], Suc 0 := [''a'', ''ghost''],
                 Suc (Suc 0) := []),
        next_addr = Suc (Suc (Suc 0)),
        trace = [StatSync ''/a'', Iteration ''/a'', ReaddirSync ''/a'',
            Invoke ''/a'' 0 [''node_modules''] (Inr Undefined),
            Iteration ''/'', ReaddirSync ''/'',
            Invoke ''/'' (Suc 0) [''a''] (Inr Undefined),
            StatSync ''/a/node_modules/pkg'',
            Iteration ''/a/node_modules/pkg'',
            ReaddirSync ''/a/node_modules/pkg'', Iteration ''/a'',
            Invoke ''/a'' 0 [''node_modules'', ''ghost''] (Inr (Bool False)),
            Iteration ''/'',
            Invoke ''/'' (Suc 0) [''a'', ''ghost''] (Inr (Bool False))]\<rparr>"
  by (simp add: ghost_between_def ghost_state_eval ghost_between_first ghost_between_second)

section \<open>The claims\<close>

subsection \<open>The skip set (C1)\<close>

text \<open>
  C1: the walk is to be abandoned, without a callback invocation, exactly at a current
  directory whose own name is \<open>.git\<close> or \<open>node_modules\<close>. Line 83 takes the last segment of
  \<open>dirname(dir)\<close>, which is the name of the parent of the current directory. Started at
  \<open>/a/node_modules\<close>, the callback is invoked there and at both ancestors; started at
  \<open>/a/node_modules/pkg\<close>, whose name is not in the skip set, the walk is abandoned at once
  and the callback is never invoked.
\<close>

theorem C1_skip_tests_parent_name:
  "trace (snd (locateBlocking fs_project ''/'' ''/a/node_modules'' cb_never init_state)) =
     [StatSync ''/a/node_modules'',
      Iteration ''/a/node_modules'', ReaddirSync ''/a/node_modules'',
      Invoke ''/a/node_modules'' 0 [''pkg''] (Inr (Bool False)),
      Iteration ''/a'', ReaddirSync ''/a'', Invoke ''/a'' 1 [''node_modules''] (Inr (Bool False)),
      Iteration ''/'', ReaddirSync ''/'', Invoke ''/'' 2 [''a''] (Inr (Bool False))]
   \<and> locateBlocking fs_project ''/'' ''/a/node_modules/pkg'' cb_never init_state =
     (Inr None,
      \<lparr>pathCache = [(''/a/node_modules/pkg:() => false'', None)],
       cacheKeys = [''/a/node_modules/pkg'', ''/a/node_modules/pkg''],
       statCache = [(''/a/node_modules/pkg'', True)],
       readdirCache = [(''/a/node_modules/pkg'', 0)],
       heap = (\<lambda>_. [])(0 := []),
       next_addr = 1,
       trace = [StatSync ''/a/node_modules/pkg'', Iteration ''/a/node_modules/pkg'',
                ReaddirSync ''/a/node_modules/pkg'']\<rparr>)"
  by (simp add: escalade_defs fs_project_def cb_never_def)

subsection \<open>The size of the result cache (C2)\<close>

text \<open>
  C2: the result cache is to hold at most 100 entries after any sequence of calls. Lines 92
  and 102 store into \<open>pathCache\<close> directly, not through \<open>addToCache\<close>, and nothing ever
  deletes from it: after 101 calls with the callback \<open>() => false\<close> on the 101 files
  \<open>/f\<close>, \<open>/ff\<close>, ... of \<open>/\<close>, started from a freshly loaded module, it holds one entry for
  each of the 101 start paths.
\<close>

theorem C2_result_cache_exceeds_capacity:
  "map fst (pathCache (run_calls (file_calls 101) init_state)) =
     map (\<lambda>i. file_path i @ '':() => false'') [0..<101]
   \<and> map_size (pathCache (run_calls (file_calls 101) init_state)) = 101
   \<and> MAX_CACHE_SIZE = 100"
proof -
  have key: "cacheKey_of ''/'' (file_path i) cb_never = file_path i @ '':() => false''" for i
    by (simp add: cacheKey_of_def file_path_facts cb_never_def)
  have keys: "map fst (pathCache (run_calls (file_calls 101) init_state)) =
                map (\<lambda>i. file_path i @ '':() => false'') [0..<101]"
    using file_calls_at_capacity by (simp add: key)
  have "map_size (pathCache (run_calls (file_calls 101) init_state)) = 101"
    using arg_cong [OF keys, of length] by (simp add: map_size_def)
  then show ?thesis using keys by (simp add: MAX_CACHE_SIZE_def)
qed

subsection \<open>The metadata and listing caches share one key queue (C3)\<close>

text \<open>
  C3: each store is to evict, on an insertion at capacity, exactly its own earliest key,
  whatever was inserted into the other stores. \<open>addToCache\<close> takes the key to evict from the
  one queue \<open>cacheKeys\<close> that both stores append to. From a freshly loaded module, 102 calls
  on 102 different files of \<open>/\<close>: the 101st evicts \<open>/f\<close> from the metadata cache, which then
  holds the 100 keys \<open>/ff\<close> ... ; the 102nd finds it full again, takes \<open>/\<close> (a key of the
  listing cache) from the queue, deletes nothing, and leaves 101 keys in the metadata
  cache, \<open>/ff\<close> still among them.
\<close>

theorem C3_stores_share_the_eviction_queue:
  "map fst (statCache (run_calls (file_calls 101) init_state)) = map file_path [1..<101]
   \<and> map fst (statCache (run_calls (file_calls 102) init_state)) = map file_path [1..<102]
   \<and> map_size (statCache (run_calls (file_calls 102) init_state)) = 101
   \<and> MAX_CACHE_SIZE = 100"
proof -
  define t where "t = run_calls (file_calls 101) init_state"
  have IH: "map fst (statCache t) = map file_path [1..<101]"
      "cacheKeys t = ''/'' # map file_path [1..<101]"
      "readdirCache t = [(''/'', 0)]"
      "map fst (pathCache t) = map (\<lambda>i. cacheKey_of ''/'' (file_path i) cb_never) [0..<101]"
    using file_calls_at_capacity by (simp_all add: t_def)
  have miss: "\<not> map_has (pathCache t) (cacheKey_of ''/'' (file_path 101) cb_never)"
    unfolding map_has_keys IH(4) by (auto simp: file_key_inj)
  have nostat: "file_path 101 \<notin> set (map fst (statCache t))"
    unfolding IH(1) by (auto simp: file_path_inj)
  then have nostat': "getCachedStat t (file_path 101) = None"
    by (simp add: getCachedStat_def map_has_keys)
  have rd: "getCachedReaddir t ''/'' = Some 0"
    by (simp add: getCachedReaddir_def IH(3) map_has_def map_get_def)
  have len: "100 \<le> length (statCache t)"
    using arg_cong [OF IH(1), of length] by simp
  define u where "u = snd (locateBlocking fs_flat ''/'' (file_path 101) cb_never t)"
  note eff = file_call_effect [OF miss nostat' rd, folded u_def]
  have "[0..<102] = [0..<101] @ [101]" using upt_Suc_append [of 0 101] by simp
  then have run: "run_calls (file_calls 102) init_state = u"
    by (simp add: file_calls_def run_calls_append t_def u_def)
  have "map fst (map_delete (statCache t) ''/'') = map file_path [1..<101]"
    unfolding map_fst_map_delete IH(1) by (rule filter_root_file_path)
  then have "map fst (map_set (map_delete (statCache t) ''/'') (file_path 101) False)
             = map file_path [1..<101] @ [file_path 101]"
    using nostat IH(1) by (simp add: map_fst_map_set)
  moreover have "[1..<102] = [1..<101] @ [101]" using upt_Suc_append [of 1 101] by simp
  ultimately have keys: "map fst (statCache u) = map file_path [1..<102]"
    using eff addToCache_full(1) [OF len, of "file_path 101" False "''/''"] IH(2) by simp
  have "map_size (statCache u) = 101"
    using arg_cong [OF keys, of length] by (simp add: map_size_def)
  then show ?thesis using keys IH(1) run by (simp add: t_def MAX_CACHE_SIZE_def)
qed

subsection \<open>Termination (C4)\<close>

text \<open>
  C4: every call terminates, and its loop body is entered at most (depth of the resolved
  start path) + 1 times. \<open>walk\<close> is a total function (its termination is proved where it is
  defined: each iteration's directory is the \<open>dirname\<close> of the previous one, and a directory
  that is its own \<open>dirname\<close> ends the loop), so the call returns some result and state; the
  log of that state has at most depth + 1 iterations more than the log before the call.
\<close>

theorem C4_call_returns_within_depth_plus_one_iterations:
  "\<exists>r s'. locateBlocking fs cwd start callback s = (r, s')
          \<and> iterations (new_events s s') \<le> depth (resolve cwd ''.'' start) + 1"
proof -
  obtain r s' where call: "locateBlocking fs cwd start callback s = (r, s')"
    by (cases "locateBlocking fs cwd start callback s")
  have "iterations (new_events s s') \<le> depth (resolve cwd ''.'' start) + 1"
    using call
  proof (cases rule: locateBlocking_cases)
    case (hit x)
    then show ?thesis by (simp add: new_events_def)
  next
    case (stat_error e)
    then show ?thesis using fetch_stat_log [OF stat_error(2)] by auto
  next
    case (walked stats s1 s2)
    obtain st where st: "st = [] \<or> st = [StatSync (resolve cwd ''.'' start)]" "trace s1 = trace s @ st"
      using fetch_stat_log [OF walked(2)] by blast
    obtain ev where ev: "trace s2 = trace s1 @ ev" using walk_extends [OF walked(3)] by blast
    have "trace s' = trace s @ st @ ev" using walked(4) st(2) ev by (simp add: trace_after_walk)
    then have ne: "new_events s s' = st @ ev" by simp
    have ne1: "new_events s1 s2 = ev" using ev by simp
    obtain segs where segs: "list_all plain_name segs"
        "(if \<not> stats then dirname (resolve cwd ''.'' start) else resolve cwd ''.'' start) = render segs"
        "length segs \<le> depth (resolve cwd ''.'' start)"
      using start_dir_normal by blast
    have "iterations ev \<le> length segs + 1"
      using walk_log_normal [OF walked(3)] segs(1,2) ne1 by auto
    then show ?thesis using ne st(1) segs(3) by auto
  qed
  then show ?thesis using call by blast
qed

theorem C4_witness:
  "depth (resolve ''/'' ''.'' ''/a/node_modules'') = 2
   \<and> iterations (new_events init_state
         (snd (locateBlocking fs_project ''/'' ''/a/node_modules'' cb_never init_state))) \<le> 3"
proof -
  have d: "depth (resolve ''/'' ''.'' ''/a/node_modules'') = 2"
    by (simp add: depth_def resolve_def isAbsolute_def)
  show ?thesis
    using d C4_call_returns_within_depth_plus_one_iterations
      [of fs_project "''/''" "''/a/node_modules''" cb_never init_state]
    by auto
qed

subsection \<open>The answer of a successful call (C5)\<close>

text \<open>
  C5 says that a truthy path \<open>v\<close> answered at directory \<open>D\<close> ends the walk with \<open>v\<close> resolved
  against \<open>D\<close>, and that an absolute \<open>v\<close> comes back exactly as it is. \<open>resolve\<close> normalizes
  what it returns, so the second part fails for an absolute answer that is not in normal
  form: at the root, the answer \<open>/b/\<close> comes back as \<open>/b\<close>.
\<close>

theorem C5_counterexample:
  "isAbsolute ''/b/''
   \<and> new_events init_state (snd (locateBlocking fs_root ''/'' ''/'' (cb_const ''/b/'') init_state)) =
       [StatSync ''/'', Iteration ''/'', ReaddirSync ''/'', Invoke ''/'' 0 [] (Inr (Str ''/b/''))]
   \<and> fst (locateBlocking fs_root ''/'' ''/'' (cb_const ''/b/'') init_state) = Inr (Some ''/b'')
   \<and> ''/b'' \<noteq> ''/b/''"
  by (simp add: escalade_defs new_events_def fs_root_def cb_const_def)

text \<open>
  C5, amended: whenever a callback invocation at a directory \<open>D\<close> answers a non-empty string
  \<open>v\<close>, the call returns \<open>resolve(D, v)\<close> and that invocation is the last thing the call
  does (the callback is not invoked again); if \<open>v\<close> is an absolute path in normal form the
  result is \<open>v\<close> itself, whatever the start path, and if \<open>v\<close> is a plain name the result is
  \<open>D\<close> joined with \<open>v\<close>.
\<close>

theorem C5_truthy_answer_is_resolved_against_its_directory:
  assumes "locateBlocking fs cwd start callback s = (r, s')"
    and "Invoke D files names (Inr (Str v)) \<in> set (new_events s s')"
    and "v \<noteq> []"
  shows "r = Inr (Some (resolve cwd D v))
         \<and> last (trace s') = Invoke D files names (Inr (Str v))
         \<and> (normal_path v \<longrightarrow> resolve cwd D v = v)
         \<and> (plain_name v \<longrightarrow>
              resolve cwd D v = (if D = ''/'' then CHR ''/'' # v else D @ CHR ''/'' # v))"
proof -
  from assms(1,2) obtain stats s1 s2 where
      w: "walk fs cwd callback (cacheKey_of cwd start callback) {}
         (if \<not> stats then dirname (resolve cwd ''.'' start) else resolve cwd ''.'' start) s1 = (r, s2)"
      and inv: "Invoke D files names (Inr (Str v)) \<in> set (new_events s1 s2)"
      and t: "trace s' = trace s2"
    by (rule locateBlocking_log)
  have res: "r = Inr (Some (resolve cwd D v))"
    and lst: "last (trace s') = Invoke D files names (Inr (Str v))"
    using walk_log_found [OF w] inv assms(3) t by auto
  obtain segs where segs: "list_all plain_name segs"
      "(if \<not> stats then dirname (resolve cwd ''.'' start) else resolve cwd ''.'' start) = render segs"
    using start_dir_normal by blast
  obtain ds where ds: "list_all plain_name ds" "D = render ds"
    using walk_log_normal [OF w] segs inv by blast
  have abs: "resolve cwd D v = v" if np: "normal_path v"
  proof -
    obtain vs where "list_all plain_name vs" "v = render vs"
      using normal_path_render [OF np] by blast
    then show ?thesis by (simp add: resolve_absolute_normal)
  qed
  have rel: "resolve cwd D v = (if D = ''/'' then CHR ''/'' # v else D @ CHR ''/'' # v)"
    if pn: "plain_name v"
    using resolve_plain_name [OF ds(1) pn, of cwd] render_eq_root [OF ds(1)] ds(2)
    by (simp add: render_snoc)
  show ?thesis using res lst abs rel by blast
qed

theorem C5_witness:
  "Invoke ''/a'' 0 [''node_modules''] (Inr (Str ''node_modules''))
     \<in> set (new_events init_state
              (snd (locateBlocking fs_project ''/'' ''/a'' (cb_includes ''node_modules'') init_state)))
   \<and> plain_name ''node_modules''
   \<and> fst (locateBlocking fs_project ''/'' ''/a'' (cb_includes ''node_modules'') init_state) =
       Inr (Some ''/a/node_modules'')
   \<and> Invoke ''/a'' 0 [''node_modules''] (Inr (Str ''/opt/tool''))
     \<in> set (new_events init_state
              (snd (locateBlocking fs_project ''/'' ''/a'' (cb_const ''/opt/tool'') init_state)))
   \<and> normal_path ''/opt/tool''
   \<and> fst (locateBlocking fs_project ''/'' ''/a'' (cb_const ''/opt/tool'') init_state) =
       Inr (Some ''/opt/tool'')"
proof -
  have a: "Invoke ''/a'' 0 [''node_modules''] (Inr (Str ''node_modules''))
     \<in> set (new_events init_state
              (snd (locateBlocking fs_project ''/'' ''/a'' (cb_includes ''node_modules'') init_state)))"
    by (simp add: escalade_defs new_events_def fs_project_def cb_includes_def)
  have b: "''node_modules'' \<noteq> []" by simp
  have c: "plain_name ''node_modules''" by (simp add: plain_name_def)
  have d: "Invoke ''/a'' 0 [''node_modules''] (Inr (Str ''/opt/tool''))
     \<in> set (new_events init_state
              (snd (locateBlocking fs_project ''/'' ''/a'' (cb_const ''/opt/tool'') init_state)))"
    by (simp add: escalade_defs new_events_def fs_project_def cb_const_def)
  have e: "''/opt/tool'' \<noteq> []" by simp
  have f: "normal_path ''/opt/tool''" by (simp add: normal_path_def isAbsolute_def plain_name_def)
  show ?thesis
    using a c d f
      C5_truthy_answer_is_resolved_against_its_directory [OF prod.collapse [symmetric] a b]
      C5_truthy_answer_is_resolved_against_its_directory [OF prod.collapse [symmetric] d e]
    by simp
qed

subsection \<open>Repeated calls (C6)\<close>

text \<open>
  C6: two sequential calls with the same start path and the same callback return the same
  result, and the second performs no filesystem read. For a first call that returns (a path
  or "not found"), from any module state and whatever the filesystem has become: the second
  call returns the same value and leaves the state, log included, as it was, so it made no
  \<open>statSync\<close> or \<open>readdirSync\<close> call and no callback invocation.
\<close>

theorem C6_repeated_call_hits_result_cache:
  assumes "locateBlocking fs cwd start callback s = (Inr r, s')"
  shows "locateBlocking fs' cwd start callback s' = (Inr r, s')
         \<and> new_events s' (snd (locateBlocking fs' cwd start callback s')) = []"
proof -
  have "locateBlocking fs' cwd start callback s' = (Inr r, s')"
    by (rule locateBlocking_hit [OF locateBlocking_stores [OF assms]])
  then show ?thesis by (simp add: new_events_def)
qed

theorem C6_witness:
  "locateBlocking fs_project ''/'' ''/a'' (cb_includes ''node_modules'') init_state =
     (Inr (Some ''/a/node_modules''),
      snd (locateBlocking fs_project ''/'' ''/a'' (cb_includes ''node_modules'') init_state))
   \<and> locateBlocking fs_gone ''/'' ''/a'' (cb_includes ''node_modules'')
       (snd (locateBlocking fs_project ''/'' ''/a'' (cb_includes ''node_modules'') init_state)) =
     (Inr (Some ''/a/node_modules''),
      snd (locateBlocking fs_project ''/'' ''/a'' (cb_includes ''node_modules'') init_state))"
proof -
  have first: "locateBlocking fs_project ''/'' ''/a'' (cb_includes ''node_modules'') init_state =
     (Inr (Some ''/a/node_modules''),
      snd (locateBlocking fs_project ''/'' ''/a'' (cb_includes ''node_modules'') init_state))"
    by (simp add: escalade_defs fs_project_def cb_includes_def)
  show ?thesis
    using first C6_repeated_call_hits_result_cache [OF first, of fs_gone] by simp
qed

subsection \<open>A start path that does not exist (C7)\<close>

text \<open>
  C7: a call whose start path does not exist is to fail with the error of the metadata
  lookup. As stated, for every call, this does not hold: the result cache is consulted
  first and the metadata cache next, and neither is ever invalidated. After a call made
  while \<open>/a\<close> existed, a call made when nothing exists any more returns "not found" with
  the same callback, and even a path with another callback.
\<close>

theorem C7_counterexample:
  "statSync fs_gone (resolve ''/'' ''.'' ''/a'') = Inl ENOENT
   \<and> fst (locateBlocking fs_gone ''/'' ''/a'' cb_never
        (snd (locateBlocking fs_project ''/'' ''/a'' cb_never init_state))) = Inr None
   \<and> fst (locateBlocking fs_gone ''/'' ''/a'' (cb_includes ''a'')
        (snd (locateBlocking fs_project ''/'' ''/a'' cb_never init_state))) = Inr (Some ''/a'')"
  by (simp add: escalade_defs fs_project_def fs_gone_def cb_never_def cb_includes_def)

text \<open>
  C7, amended: when the result cache has no entry under the call's key and the metadata
  cache none for the resolved start path, a failing \<open>statSync\<close> on the resolved start path
  makes the whole call fail with that very error; nothing is cached and the callback is not
  invoked.
\<close>

theorem C7_stat_failure_propagates:
  assumes "statSync fs (resolve cwd ''.'' start) = Inl e"
    and "\<not> map_has (pathCache s) (cacheKey_of cwd start callback)"
    and "getCachedStat s (resolve cwd ''.'' start) = None"
  shows "locateBlocking fs cwd start callback s =
           (Inl e, log_event (StatSync (resolve cwd ''.'' start)) s)"
  using assms by (simp add: locateBlocking_def cacheKey_of_def fetch_stat_def Let_def)

theorem C7_witness:
  "statSync fs_project (resolve ''/'' ''.'' ''/a/missing'') = Inl ENOENT
   \<and> \<not> map_has (pathCache init_state) (cacheKey_of ''/'' ''/a/missing'' cb_never)
   \<and> getCachedStat init_state (resolve ''/'' ''.'' ''/a/missing'') = None
   \<and> locateBlocking fs_project ''/'' ''/a/missing'' cb_never init_state =
       (Inl ENOENT, log_event (StatSync ''/a/missing'') init_state)"
proof -
  have r: "resolve ''/'' ''.'' ''/a/missing'' = ''/a/missing''"
    by (simp add: resolve_def isAbsolute_def)
  have a: "statSync fs_project (resolve ''/'' ''.'' ''/a/missing'') = Inl ENOENT"
    by (simp add: r fs_project_def)
  have b: "\<not> map_has (pathCache init_state) (cacheKey_of ''/'' ''/a/missing'' cb_never)"
    by (simp add: init_state_def map_has_def)
  have c: "getCachedStat init_state (resolve ''/'' ''.'' ''/a/missing'') = None"
    by (simp add: init_state_def getCachedStat_def map_has_def)
  show ?thesis
    using a b c C7_stat_failure_propagates [OF a b c] by (simp add: r)
qed

subsection \<open>Exhaustion (C8)\<close>

text \<open>
  C8: when the walk gets to the root without a truthy answer, that is, when the callback is
  invoked at \<open>/\<close> and answers falsy there, the call returns \<open>undefined\<close> as a normal
  result, not an exception, and the result cache holds \<open>undefined\<close> under the call's key
  afterwards.
\<close>

theorem C8_exhaustion_returns_not_found_and_caches_it:
  assumes "locateBlocking fs cwd start callback s = (r, s')"
    and "Invoke ''/'' files names (Inr v) \<in> set (new_events s s')"
    and "\<not> truthy v"
  shows "r = Inr None
         \<and> map_has (pathCache s') (cacheKey_of cwd start callback)
         \<and> map_get (pathCache s') (cacheKey_of cwd start callback) = Some None"
  using assms(1)
proof (cases rule: locateBlocking_cases)
  case (hit x)
  then show ?thesis using assms(2) by (simp add: new_events_def)
next
  case (stat_error e)
  then show ?thesis using assms(2) fetch_stat_log [OF stat_error(2)] by auto
next
  case (walked stats s1 s2)
  obtain st where st: "st = [] \<or> st = [StatSync (resolve cwd ''.'' start)]" "trace s1 = trace s @ st"
    using fetch_stat_log [OF walked(2)] by blast
  obtain ev where ev: "trace s2 = trace s1 @ ev" using walk_extends [OF walked(3)] by blast
  have "trace s' = trace s @ st @ ev" using walked(4) st(2) ev by (simp add: trace_after_walk)
  then have "new_events s s' = st @ ev" by simp
  then have "Invoke ''/'' files names (Inr v) \<in> set (new_events s1 s2)"
    using assms(2) st(1) ev by auto
  moreover have "dirname ''/'' = ''/''" by (simp add: dirname_def)
  ultimately have "r = Inr None" using walk_log_root [OF walked(3)] assms(3) by blast
  then show ?thesis using walked(4) by (simp add: map_get_map_set map_has_map_set)
qed

theorem C8_witness:
  "Invoke ''/'' 1 [''a''] (Inr (Bool False))
     \<in> set (new_events init_state (snd (locateBlocking fs_project ''/'' ''/a'' cb_never init_state)))
   \<and> \<not> truthy (Bool False)
   \<and> fst (locateBlocking fs_project ''/'' ''/a'' cb_never init_state) = Inr None
   \<and> map_get (pathCache (snd (locateBlocking fs_project ''/'' ''/a'' cb_never init_state)))
       (cacheKey_of ''/'' ''/a'' cb_never) = Some None"
proof -
  have a: "Invoke ''/'' 1 [''a''] (Inr (Bool False))
     \<in> set (new_events init_state (snd (locateBlocking fs_project ''/'' ''/a'' cb_never init_state)))"
    by (simp add: escalade_defs new_events_def fs_project_def cb_never_def)
  have b: "\<not> truthy (Bool False)" by simp
  show ?thesis
    using a b
      C8_exhaustion_returns_not_found_and_caches_it
        [OF prod.collapse [symmetric] a b]
    by simp
qed

subsection \<open>Callbacks with the same text (C9)\<close>

text \<open>
  C9: a callback with the same text as the callback of an earlier call on the same start
  path gets the earlier call's result and is never invoked, whatever it would have answered
  itself and whatever calls were made in between: the call returns the earlier value and
  leaves the state, log included, as it was.
\<close>

theorem C9_same_text_collides:
  assumes "cb_toString callback2 = cb_toString callback1"
    and "locateBlocking fs cwd start callback1 s = (Inr r, s1)"
  shows "locateBlocking fs' cwd start callback2 (run_calls calls s1) = (Inr r, run_calls calls s1)"
proof -
  have "cacheKey_of cwd start callback2 = cacheKey_of cwd start callback1"
    using assms(1) by (simp add: cacheKey_of_def)
  moreover have "map_get (pathCache (run_calls calls s1)) (cacheKey_of cwd start callback1) = Some r"
    by (rule run_calls_keeps [OF locateBlocking_stores [OF assms(2)]])
  ultimately show ?thesis by (simp add: locateBlocking_hit)
qed

theorem C9_witness:
  "cb_toString (cb_includes ''a'') = cb_toString (cb_includes ''node_modules'')
   \<and> fst (locateBlocking fs_project ''/'' ''/a'' (cb_includes ''a'') init_state) = Inr (Some ''/a'')
   \<and> fst (locateBlocking fs_project ''/'' ''/a'' (cb_includes ''node_modules'') init_state) =
       Inr (Some ''/a/node_modules'')
   \<and> fst (locateBlocking fs_project ''/'' ''/a'' (cb_includes ''a'')
         (run_calls [(fs_project, ''/'', ''/'', cb_never)]
           (snd (locateBlocking fs_project ''/'' ''/a'' (cb_includes ''node_modules'') init_state)))) =
       Inr (Some ''/a/node_modules'')"
proof -
  have same: "cb_toString (cb_includes ''a'') = cb_toString (cb_includes ''node_modules'')"
    by (simp add: cb_includes_def)
  have alone: "fst (locateBlocking fs_project ''/'' ''/a'' (cb_includes ''a'') init_state) = Inr (Some ''/a'')"
    by (simp add: escalade_defs fs_project_def cb_includes_def)
  have fst1: "fst (locateBlocking fs_project ''/'' ''/a'' (cb_includes ''node_modules'') init_state) =
     Inr (Some ''/a/node_modules'')"
    by (simp add: escalade_defs fs_project_def cb_includes_def)
  have first: "locateBlocking fs_project ''/'' ''/a'' (cb_includes ''node_modules'') init_state =
     (Inr (Some ''/a/node_modules''),
      snd (locateBlocking fs_project ''/'' ''/a'' (cb_includes ''node_modules'') init_state))"
    using fst1 by (metis prod.collapse)
  show ?thesis
    using same alone fst1
      C9_same_text_collides [OF same first, of fs_project "[(fs_project, ''/'', ''/'', cb_never)]"]
    by simp
qed

subsection \<open>The listing handed to the callback (C10)\<close>

text \<open>
  C10: the list handed to the callback at a directory \<open>D\<close> is the array the listing cache
  holds for \<open>D\<close>, not a copy, so what the callback does to it is what every later lookup
  of \<open>D\<close> finds, in this or any later call, until the entry is evicted. In any state
  reached by earlier calls from a freshly loaded module, let a call invoke the callback at
  \<open>D\<close> with the array \<open>files\<close> holding \<open>names\<close>. After that call the cache entry of \<open>D\<close>,
  unless already evicted, is \<open>files\<close> itself, holding what the callback left in it. Let any
  sequence of calls follow in which no invocation at \<open>D\<close> writes to the list again, and then
  one more call, whatever its start path, callback and filesystem, that invokes its
  callback at \<open>D\<close>. If the listing of \<open>D\<close> has not been read anew since the first call (the
  entry was not evicted), the cache still holds \<open>files\<close> for \<open>D\<close> with the content the first
  callback left, and that array with that content is what the last callback is given.
\<close>

theorem C10_callback_is_given_the_cached_array:
  assumes first: "locateBlocking fs cwd start callback (run_calls earlier init_state) = (r, s1)"
    and given: "Invoke D files names res \<in> set (new_events (run_calls earlier init_state) s1)"
    and between: "listing_untouched D between s1"
    and later: "locateBlocking fs2 cwd2 start2 callback2 (run_calls between s1) = (r2, s3)"
    and again: "Invoke D files2 names2 res2 \<in> set (new_events (run_calls between s1) s3)"
    and kept: "ReaddirSync D \<notin> set (new_events s1 s3)"
  shows "(getCachedReaddir s1 D = None
          \<or> (getCachedReaddir s1 D = Some files
             \<and> heap s1 files = snd (cb_apply callback D names)))
         \<and> getCachedReaddir (run_calls between s1) D = Some files
         \<and> heap (run_calls between s1) files = snd (cb_apply callback D names)
         \<and> files2 = files
         \<and> names2 = snd (cb_apply callback D names)"
proof -
  define s2 where "s2 = run_calls between s1"
  have ok: "cache_ok (run_calls earlier init_state)"
    by (rule run_calls_cache_ok [OF cache_ok_init])
  have ok1: "cache_ok s1" by (rule locateBlocking_cache_ok [OF first ok])
  have ok2: "cache_ok s2" unfolding s2_def by (rule run_calls_cache_ok [OF ok1])
  have P1: "getCachedReaddir s1 D = None
          \<or> (getCachedReaddir s1 D = Some files
             \<and> heap s1 files = snd (cb_apply callback D names))"
    by (rule locateBlocking_alias [OF first ok given])
  obtain e1 where e1: "trace s2 = trace s1 @ e1"
    unfolding s2_def using run_calls_extends by blast
  obtain e2 where e2: "trace s3 = trace s2 @ e2"
    using locateBlocking_extends [OF later [folded s2_def]] by blast
  have split: "new_events s1 s3 = new_events s1 s2 @ new_events s2 s3"
    by (rule new_events_trans [OF e1 e2])
  have ne1: "ReaddirSync D \<notin> set (new_events s1 s2)"
    and ne2: "ReaddirSync D \<notin> set (new_events s2 s3)"
    using kept unfolding split by simp_all
  have P2: "getCachedReaddir s2 D = None
          \<or> (getCachedReaddir s2 D = Some files
             \<and> heap s2 files = snd (cb_apply callback D names))"
    unfolding s2_def
    by (rule run_calls_keeps_listing [OF ok1 P1 between ne1 [unfolded s2_def]])
  have "ReaddirSync D \<in> set (new_events s2 s3)
        \<or> (getCachedReaddir s2 D = Some files2 \<and> names2 = heap s2 files2)"
    by (rule locateBlocking_later [OF later [folded s2_def] ok2 again [folded s2_def]])
  then have "getCachedReaddir s2 D = Some files2 \<and> names2 = heap s2 files2"
    using ne2 by simp
  then show ?thesis using P1 P2 unfolding s2_def [symmetric] by auto
qed

theorem C10_witness:
  "Invoke ''/a'' 0 [''node_modules''] (Inr Undefined)
     \<in> set (new_events (run_calls [] init_state) ghost_state)
   \<and> listing_untouched ''/a'' ghost_between ghost_state
   \<and> Invoke ''/a'' 0 [''node_modules'', ''ghost''] (Inr (Str ''ghost''))
     \<in> set (new_events (run_calls ghost_between ghost_state)
              (snd (locateBlocking fs_gone ''/'' ''/a'' (cb_includes ''ghost'')
                     (run_calls ghost_between ghost_state))))
   \<and> ReaddirSync ''/a''
     \<notin> set (new_events ghost_state
              (snd (locateBlocking fs_gone ''/'' ''/a'' (cb_includes ''ghost'')
                     (run_calls ghost_between ghost_state))))
   \<and> fst (locateBlocking fs_gone ''/'' ''/a'' (cb_includes ''ghost'')
            (run_calls ghost_between ghost_state)) = Inr (Some ''/a/ghost'')
   \<and> getCachedReaddir (run_calls ghost_between ghost_state) ''/a'' = Some 0
   \<and> heap (run_calls ghost_between ghost_state) 0 = [''node_modules'', ''ghost'']"
proof -
  have first: "locateBlocking fs_project ''/'' ''/a'' (cb_push ''ghost'') (run_calls [] init_state)
               = (fst (locateBlocking fs_project ''/'' ''/a'' (cb_push ''ghost'')
                         (run_calls [] init_state)), ghost_state)"
    by (simp add: ghost_state_def)
  have given: "Invoke ''/a'' 0 [''node_modules''] (Inr Undefined)
     \<in> set (new_events (run_calls [] init_state) ghost_state)"
    unfolding ghost_state_eval by (simp add: new_events_def init_state_def)
  have between: "listing_untouched ''/a'' ghost_between ghost_state"
    by (simp add: ghost_between_def ghost_state_eval ghost_between_first ghost_between_second
                  new_events_def)
       (simp add: cb_never_def)
  have again: "Invoke ''/a'' 0 [''node_modules'', ''ghost''] (Inr (Str ''ghost''))
     \<in> set (new_events (run_calls ghost_between ghost_state)
              (snd (locateBlocking fs_gone ''/'' ''/a'' (cb_includes ''ghost'')
                     (run_calls ghost_between ghost_state))))"
    unfolding ghost_between_eval
    by (simp add: escalade_defs new_events_def fs_gone_def cb_includes_def)
  have kept: "ReaddirSync ''/a''
     \<notin> set (new_events ghost_state
              (snd (locateBlocking fs_gone ''/'' ''/a'' (cb_includes ''ghost'')
                     (run_calls ghost_between ghost_state))))"
    unfolding ghost_between_eval
    by (simp add: escalade_defs new_events_def fs_gone_def cb_includes_def ghost_state_eval)
  have answer: "fst (locateBlocking fs_gone ''/'' ''/a'' (cb_includes ''ghost'')
            (run_calls ghost_between ghost_state)) = Inr (Some ''/a/ghost'')"
    unfolding ghost_between_eval
    by (simp add: escalade_defs fs_gone_def cb_includes_def)
  have ap: "snd (cb_apply (cb_push ''ghost'') ''/a'' [''node_modules'']) = [''node_modules'', ''ghost'']"
    by (simp add: cb_push_def)
  note main = C10_callback_is_given_the_cached_array [OF first given between prod.collapse [symmetric] again kept]
  have cached: "getCachedReaddir (run_calls ghost_between ghost_state) ''/a'' = Some 0"
    using main by (elim conjE)
  have content: "heap (run_calls ghost_between ghost_state) 0 = [''node_modules'', ''ghost'']"
    using main unfolding ap by (elim conjE)
  show ?thesis
    by (intro conjI given between again kept answer cached content)
qed

end
